theory Spec2Isabelle
  imports Complex_Main "HOL-Library.Extended_Nat"
begin

section \<open>Chat Noir: the board, the distance engine and the cat's turn\<close>

text \<open>
  A shallow embedding of \<^verbatim>\<open>chat-noir.js\<close>. The script keeps one module-level object
  \<^verbatim>\<open>boundary\<close>, a heap of \<^verbatim>\<open>Spot\<close> objects and \<^verbatim>\<open>Board\<close> objects; everything that
  draws on the page is left out.

  \<^item> A reference to a \<^verbatim>\<open>Spot\<close> is the triple (number of the Board whose constructor made
    it, x, y). A Board's constructor makes at most one Spot per coordinate pair, so two
    references are equal exactly when they denote the same object; the fields
    \<^verbatim>\<open>x\<close> and \<^verbatim>\<open>y\<close>, never written after the constructor, are read off the reference.
  \<^item> The mutable fields of the Spots (\<^verbatim>\<open>blocked\<close>, \<^verbatim>\<open>adjacent\<close>, \<^verbatim>\<open>distance\<close>) are one
    function each on references; \<open>spots\<close> lists the Spots made so far.
  \<^item> \<^verbatim>\<open>distance\<close> is a number or \<^verbatim>\<open>Infinity\<close>: an extended natural number.
  \<^item> \<^verbatim>\<open>Math.random()\<close> is a stream of reals held by the world together with the number of
    calls made so far; the doubles of the script are idealised as reals. Where the script
    rounds a sum or product before \<^verbatim>\<open>Math.floor\<close>, it may for a random number next to a
    rounding boundary pick another spot than the model does at that number; every property
    below is stated for all random numbers and none depends on which spot is picked.
  \<^item> \<^verbatim>\<open>this.grid\<close>, an object keyed by the string \<^verbatim>\<open>x-y\<close>, is an association list keyed by
    the pair (x, y) in insertion order (the string determines the pair); the constructor
    never inserts a key twice.
\<close>

type_synonym ref = "nat \<times> int \<times> int"

text \<open>
  The world is what the module and the page's script engine hold: the adjacency list of
  \<^verbatim>\<open>boundary\<close> (its \<^verbatim>\<open>distance\<close> is the constant 0), the Spots with their fields, the number of
  Boards constructed so far, the lines written to the console and the random numbers. A board
  is one \<^verbatim>\<open>Board\<close> object: its number, \<^verbatim>\<open>height\<close>, \<^verbatim>\<open>width\<close>, \<^verbatim>\<open>grid\<close> and \<^verbatim>\<open>cat\<close> (\<open>None\<close>
  for \<^verbatim>\<open>undefined\<close>).
\<close>

record world =
  boundary_adjacent :: "ref list"
  spots :: "ref list"
  blocked :: "ref \<Rightarrow> bool"
  adjacent :: "ref \<Rightarrow> ref list"
  distance :: "ref \<Rightarrow> enat"
  boards_built :: nat
  console :: "string list"
  random_source :: "nat \<Rightarrow> real"
  random_calls :: nat

record board =
  ident :: nat
  height :: int
  width :: int
  grid :: "((int \<times> int) \<times> ref) list"
  cat :: "ref option"

text \<open>The module as loaded: \<^verbatim>\<open>const boundary = { adjacent: [], distance: 0 }\<close>, no Spot, no
  Board, nothing on the console.\<close>

definition module_loaded :: "(nat \<Rightarrow> real) \<Rightarrow> world" where
  "module_loaded rnd =
     \<lparr>boundary_adjacent = [], spots = [], blocked = (\<lambda>_. False), adjacent = (\<lambda>_. []),
      distance = (\<lambda>_. \<infinity>), boards_built = 0, console = [], random_source = rnd,
      random_calls = 0\<rparr>"

definition Math_random :: "world \<Rightarrow> real \<times> world" where
  "Math_random w = (random_source w (random_calls w), w\<lparr>random_calls := Suc (random_calls w)\<rparr>)"

text \<open>The remainder operator \<^verbatim>\<open>%\<close> of the script takes the sign of the dividend.\<close>

definition js_rem :: "int \<Rightarrow> int \<Rightarrow> int" where
  "js_rem a b = sgn a * (\<bar>a\<bar> mod \<bar>b\<bar>)"

text \<open>\<^verbatim>\<open>xs[i]\<close> is \<^verbatim>\<open>undefined\<close> outside the array.\<close>

definition js_index :: "'a list \<Rightarrow> int \<Rightarrow> 'a option" where
  "js_index xs i = (if 0 \<le> i \<and> i < int (length xs) then Some (xs ! nat i) else None)"

text \<open>\<^verbatim>\<open>Math.min(...ds)\<close>; with no argument it is \<^verbatim>\<open>Infinity\<close>.\<close>

definition Math_min :: "enat list \<Rightarrow> enat" where
  "Math_min ds = foldl min \<infinity> ds"

text \<open>\<^verbatim>\<open>console.assert\<close> writes the message when the condition is falsy and returns; it
  does not throw.\<close>

definition console_assert :: "bool \<Rightarrow> string \<Rightarrow> world \<Rightarrow> world" where
  "console_assert ok msg w = (if ok then w else w\<lparr>console := console w @ [msg]\<rparr>)"

subsection \<open>Spot and the grid\<close>

definition Spot_new :: "world \<Rightarrow> ref \<Rightarrow> world" where
  "Spot_new w s =
     w\<lparr>spots := spots w @ [s], blocked := (blocked w)(s := False),
       adjacent := (adjacent w)(s := []), distance := (distance w)(s := \<infinity>)\<rparr>"

definition spot_x :: "ref \<Rightarrow> int" where
  "spot_x s = fst (snd s)"

definition spot_y :: "ref \<Rightarrow> int" where
  "spot_y s = snd (snd s)"

text \<open>The two loops of the constructor, with the two superfluous spots left out.\<close>

definition grid_keys :: "int \<Rightarrow> int \<Rightarrow> (int \<times> int) list" where
  "grid_keys h w = [(x, y). y \<leftarrow> [0..h - 1], x \<leftarrow> [0..w - 1], \<not> (x = 0 \<and> (y = 0 \<or> y = h - 1))]"

definition grid_get :: "board \<Rightarrow> int \<times> int \<Rightarrow> ref option" where
  "grid_get b k = map_of (grid b) k"

definition cells :: "board \<Rightarrow> ref list" where
  "cells b = map snd (grid b)"

subsection \<open>createGraph\<close>

definition cands :: "board \<Rightarrow> ref \<Rightarrow> ref option list" where
  "cands b s =
     (let x = spot_x s; y = spot_y s in
      if js_rem y 2 = 0
      then [grid_get b (x - 1, y - 1), grid_get b (x, y - 1), grid_get b (x - 1, y),
            grid_get b (x + 1, y), grid_get b (x - 1, y + 1), grid_get b (x, y + 1)]
      else [grid_get b (x, y - 1), grid_get b (x + 1, y - 1), grid_get b (x - 1, y),
            grid_get b (x + 1, y), grid_get b (x, y + 1), grid_get b (x + 1, y + 1)])"

definition on_rim :: "board \<Rightarrow> ref \<Rightarrow> bool" where
  "on_rim b s =
     (spot_x s = 0 \<or> spot_y s = 0 \<or> spot_x s = width b - 1 \<or> spot_y s = height b - 1)"

definition createGraph_spot :: "board \<Rightarrow> world \<Rightarrow> ref \<Rightarrow> world" where
  "createGraph_spot b w s =
     (let w1 = w\<lparr>adjacent := (adjacent w)(s := [n. Some n \<leftarrow> cands b s])\<rparr> in
      if on_rim b s then w1\<lparr>boundary_adjacent := boundary_adjacent w1 @ [s]\<rparr> else w1)"

definition createGraph :: "board \<Rightarrow> world \<Rightarrow> world" where
  "createGraph b w = foldl (createGraph_spot b) w (cells b)"

subsection \<open>updateDistances\<close>

text \<open>What the queue holds: the boundary object or a Spot.\<close>

datatype node = Boundary | Spot ref

fun node_adjacent :: "world \<Rightarrow> node \<Rightarrow> ref list" where
  "node_adjacent w Boundary = boundary_adjacent w"
| "node_adjacent w (Spot s) = adjacent w s"

fun node_distance :: "world \<Rightarrow> node \<Rightarrow> enat" where
  "node_distance w Boundary = 0"
| "node_distance w (Spot s) = distance w s"

text \<open>The \<^verbatim>\<open>for (let n of spot.adjacent)\<close> loop, on the triple (toVisit, seen, world).\<close>

fun visit :: "node \<Rightarrow> ref list \<Rightarrow> node list \<times> ref set \<times> world \<Rightarrow> node list \<times> ref set \<times> world" where
  "visit spot [] st = st"
| "visit spot (n # ns) (toVisit, seen, w) =
     (if n \<in> seen \<or> blocked w n then visit spot ns (toVisit, seen, w)
      else visit spot ns
             (toVisit @ [Spot n], insert n seen,
              w\<lparr>distance := (distance w)(n := node_distance w spot + 1)\<rparr>))"

text \<open>The \<^verbatim>\<open>while (toVisit.length > 0)\<close> loop; \<open>None\<close> is a loop that never ends.\<close>

partial_function (option) bfs :: "node list \<Rightarrow> ref set \<Rightarrow> world \<Rightarrow> world option" where
  "bfs toVisit seen w =
     (case toVisit of
        [] \<Rightarrow> Some w
      | spot # rest \<Rightarrow>
          (case visit spot (node_adjacent w spot) (rest, seen, w) of
             (toVisit', seen', w') \<Rightarrow> bfs toVisit' seen' w'))"

declare bfs.simps [code]

text \<open>\<^verbatim>\<open>for (let key in this.grid) this.grid[key].distance = Infinity\<close>: the keys of an
  object are distinct, so this visits each Spot of the grid.\<close>

definition reset_distances :: "board \<Rightarrow> world \<Rightarrow> world" where
  "reset_distances b w = foldl (\<lambda>w s. w\<lparr>distance := (distance w)(s := \<infinity>)\<rparr>) w (cells b)"

definition updateDistances :: "board \<Rightarrow> world \<Rightarrow> world option" where
  "updateDistances b w = bfs [Boundary] {} (reset_distances b w)"

subsection \<open>The cat's turn\<close>

text \<open>How a method ends: it returns without announcing anything, it announces the end of the
  game (\<^verbatim>\<open>gameEnd("win")\<close>, \<^verbatim>\<open>gameEnd("lose")\<close>), or a \<^verbatim>\<open>TypeError\<close> leaves it (a property
  of \<^verbatim>\<open>undefined\<close> was read). The board and world that come with it are the state then.
  \<^verbatim>\<open>gameEnd\<close> itself writes the result onto the page and touches neither a Board nor a
  Spot, so the announcement is all there is to it.\<close>

datatype event = Continue | Win | Lose | TypeError

text \<open>\<open>Inl TypeError\<close>: \<^verbatim>\<open>this.cat\<close> is \<^verbatim>\<open>undefined\<close>; \<open>Inr None\<close>: the method returns
  \<^verbatim>\<open>undefined\<close>.\<close>

definition nextStepForCat :: "board \<Rightarrow> world \<Rightarrow> ((event + ref option) \<times> world) option" where
  "nextStepForCat b w =
     (case updateDistances b w of
        None \<Rightarrow> None
      | Some w1 \<Rightarrow>
          (case cat b of
             None \<Rightarrow> Some (Inl TypeError, w1)
           | Some c \<Rightarrow>
               (let adjToCat = adjacent w1 c;
                    distancesNextToCat = map (distance w1) adjToCat;
                    minSteps = Math_min distancesNextToCat;
                    paths = filter (\<lambda>n. distance w1 n = minSteps) adjToCat;
                    (r, w2) = Math_random w1
                in Some (Inr (js_index paths \<lfloor>r * real (length paths)\<rfloor>), w2))))"

definition moveCat :: "board \<Rightarrow> world \<Rightarrow> (event \<times> board \<times> world) option" where
  "moveCat b w =
     (case nextStepForCat b w of
        None \<Rightarrow> None
      | Some (Inl e, w1) \<Rightarrow> Some (e, b, w1)
      | Some (Inr None, w1) \<Rightarrow> Some (TypeError, b, w1)
      | Some (Inr (Some move), w1) \<Rightarrow>
          if distance w1 move = \<infinity> then Some (Win, b, w1)
          else (let b1 = b\<lparr>cat := Some move\<rparr> in
                if distance w1 move = 1 then Some (Lose, b1, w1) else Some (Continue, b1, w1)))"

text \<open>\<^verbatim>\<open>Spot.handleClick\<close>, with \<^verbatim>\<open>this.board\<close> given as \<open>b\<close>.\<close>

definition handleClick :: "board \<Rightarrow> world \<Rightarrow> ref \<Rightarrow> (event \<times> board \<times> world) option" where
  "handleClick b w this =
     (if cat b = Some this \<or> blocked w this then Some (Continue, b, w)
      else moveCat b (w\<lparr>blocked := (blocked w)(this := True)\<rparr>))"

subsection \<open>The constructor\<close>

text \<open>\<^verbatim>\<open>setInitialCat\<close> draws the random number for x, then the one for y.\<close>

definition setInitialCat :: "board \<Rightarrow> world \<Rightarrow> board \<times> world" where
  "setInitialCat b w =
     (let (r1, w1) = Math_random w;
          x = \<lfloor>real_of_int (width b) / 2.5 + r1 * (real_of_int (width b) / 5)\<rfloor>;
          (r2, w2) = Math_random w1;
          y = \<lfloor>real_of_int (height b) / 2.5 + r2 * (real_of_int (height b) / 5)\<rfloor>
      in (b\<lparr>cat := grid_get b (x, y)\<rparr>, w2))"

text \<open>One round of the loop of \<^verbatim>\<open>setInitialBlocks\<close> up to the lookup of the spot: four
  random numbers, for dx, dy, the side of x and the side of y.\<close>

definition pick_spot :: "board \<Rightarrow> world \<Rightarrow> ref option \<times> world" where
  "pick_spot b w =
     (let (r1, w1) = Math_random w;
          dx = \<lfloor>(r1 * real_of_int (width b)) / 4\<rfloor>;
          (r2, w2) = Math_random w1;
          dy = \<lfloor>(r2 * real_of_int (height b)) / 4\<rfloor>;
          (r3, w3) = Math_random w2;
          x = (if r3 < 0.5 then dx else width b - dx - 1);
          (r4, w4) = Math_random w3;
          y = (if r4 < 0.5 then dy else height b - dy - 1)
      in (grid_get b (x, y), w4))"

text \<open>The \<^verbatim>\<open>while (i < numBlocks)\<close> loop; it ends only once enough spots were found, so
  \<open>None\<close> is a loop that never ends.\<close>

partial_function (option) setInitialBlocks_loop :: "board \<Rightarrow> int \<Rightarrow> int \<Rightarrow> world \<Rightarrow> world option" where
  "setInitialBlocks_loop b numBlocks i w =
     (if i < numBlocks then
        (case pick_spot b w of
           (None, w1) \<Rightarrow> setInitialBlocks_loop b numBlocks i w1
         | (Some spot, w1) \<Rightarrow>
             if \<not> blocked w1 spot \<and> cat b \<noteq> Some spot
             then setInitialBlocks_loop b numBlocks (i + 1)
                    (w1\<lparr>blocked := (blocked w1)(spot := True)\<rparr>)
             else setInitialBlocks_loop b numBlocks i w1)
      else Some w)"

declare setInitialBlocks_loop.simps [code]

definition setInitialBlocks :: "board \<Rightarrow> int \<Rightarrow> world \<Rightarrow> world option" where
  "setInitialBlocks b numBlocks w = setInitialBlocks_loop b numBlocks 0 w"

text \<open>\<^verbatim>\<open>new Board(height, width, numBlocks)\<close>: the assertion, the grid with its Spots (the
  new Board is number \<open>boards_built\<close>), \<^verbatim>\<open>createGraph\<close>, \<^verbatim>\<open>setInitialCat\<close>,
  \<^verbatim>\<open>setInitialBlocks\<close>. Until \<^verbatim>\<open>setInitialCat\<close> runs \<^verbatim>\<open>this.cat\<close> is \<^verbatim>\<open>undefined\<close>.\<close>

definition Board_new :: "world \<Rightarrow> int \<Rightarrow> int \<Rightarrow> int \<Rightarrow> (board \<times> world) option" where
  "Board_new w h wd numBlocks =
     (let w1 = console_assert (js_rem h 2 \<noteq> 0 \<and> js_rem wd 2 \<noteq> 0) ''Height & width must be odd'' w;
          i = boards_built w1;
          b0 = \<lparr>ident = i, height = h, width = wd,
                grid = map (\<lambda>(x, y). ((x, y), (i, x, y))) (grid_keys h wd), cat = None\<rparr>;
          w2 = foldl Spot_new (w1\<lparr>boards_built := Suc i\<rparr>) (cells b0);
          w3 = createGraph b0 w2;
          (b1, w4) = setInitialCat b0 w3
      in (case setInitialBlocks b1 numBlocks w4 of
            None \<Rightarrow> None
          | Some w5 \<Rightarrow> Some (b1, w5)))"

section \<open>Notions the properties are stated with\<close>

text \<open>The neighbours one run of the inner loop of \<^verbatim>\<open>updateDistances\<close> adds to the queue, in
  the order it adds them.\<close>

fun fresh :: "world \<Rightarrow> ref set \<Rightarrow> ref list \<Rightarrow> ref list" where
  "fresh w seen [] = []"
| "fresh w seen (n # ns) =
     (if n \<in> seen \<or> blocked w n then fresh w seen ns else n # fresh w (insert n seen) ns)"

text \<open>Every reference stored in an adjacency list denotes a Spot that was made: the heap
  has no dangling reference (a script cannot make one).\<close>

definition heap_closed :: "world \<Rightarrow> bool" where
  "heap_closed w \<longleftrightarrow>
     set (boundary_adjacent w) \<subseteq> set (spots w) \<and>
     (\<forall>s\<in>set (spots w). set (adjacent w s) \<subseteq> set (spots w))"

text \<open>\<open>hops w k n\<close>: node \<open>n\<close> is reached from the boundary object by a path of \<open>k\<close>
  hops along adjacency lists, every Spot on the path unblocked.\<close>

inductive hops :: "world \<Rightarrow> nat \<Rightarrow> node \<Rightarrow> bool" for w where
  hops_start: "hops w 0 Boundary"
| hops_step: "hops w k u \<Longrightarrow> n \<in> set (node_adjacent w u) \<Longrightarrow> \<not> blocked w n \<Longrightarrow> hops w (Suc k) (Spot n)"

text \<open>The invariant of the queue loop: the labelled nodes carry their least hop count, the
  queue is sorted by label with at most two neighbouring labels in it, every labelled node
  that left the queue has all its unblocked neighbours labelled, and every node at most as far
  as the head of the queue is labelled.\<close>

definition bfs_inv :: "world \<Rightarrow> ref list \<Rightarrow> node list \<times> ref set \<times> world \<Rightarrow> bool" where
  "bfs_inv w0 cs st =
     (case st of (q, seen, w) \<Rightarrow>
        (\<exists>d. w = w0\<lparr>distance := d\<rparr>) \<and>
        set q \<subseteq> insert Boundary (Spot ` seen) \<and>
        (\<forall>u\<in>insert Boundary (Spot ` seen).
           \<exists>k. node_distance w u = enat k \<and> hops w0 k u \<and> (\<forall>j. hops w0 j u \<longrightarrow> k \<le> j)) \<and>
        sorted_wrt (\<lambda>u v. node_distance w u \<le> node_distance w v) q \<and>
        (\<forall>u\<in>set q. node_distance w u \<le> node_distance w (hd q) + 1) \<and>
        (\<forall>u\<in>insert Boundary (Spot ` seen) - set q.
           \<forall>n\<in>set (node_adjacent w0 u). \<not> blocked w0 n \<longrightarrow> n \<in> seen) \<and>
        (q \<noteq> [] \<longrightarrow>
           (\<forall>u k. hops w0 k u \<longrightarrow> enat k \<le> node_distance w (hd q) \<longrightarrow>
              u \<in> insert Boundary (Spot ` seen))) \<and>
        (\<forall>c\<in>set cs. c \<notin> seen \<longrightarrow> distance w c = \<infinity>))"

text \<open>What the loop of setInitialBlocks may change: blocked flags of spots of the board other
  than the cat's, from unblocked to blocked, and the count of random numbers drawn.\<close>

definition blocks_only :: "board \<Rightarrow> world \<Rightarrow> world \<Rightarrow> bool" where
  "blocks_only b w w' \<longleftrightarrow>
     (\<exists>bl rc. w' = w\<lparr>blocked := bl, random_calls := rc\<rparr> \<and>
        (\<forall>c. blocked w c \<longrightarrow> bl c) \<and> (\<forall>c. cat b = Some c \<longrightarrow> bl c = blocked w c) \<and>
        (\<forall>c. c \<notin> set (cells b) \<longrightarrow> bl c = blocked w c))"

text \<open>The neighbours of a board's spots are spots of that board, and the cat sits on an
  unblocked spot of the board.\<close>

definition board_ok :: "board \<Rightarrow> world \<Rightarrow> bool" where
  "board_ok b w \<longleftrightarrow>
     (\<forall>c\<in>set (cells b). set (adjacent w c) \<subseteq> set (cells b)) \<and>
     (\<forall>c. cat b = Some c \<longrightarrow> c \<in> set (cells b) \<and> \<not> blocked w c)"

text \<open>A game: the player's clicks, one after the other, each handled to its end.\<close>

fun play :: "board \<times> world \<Rightarrow> ref list \<Rightarrow> (board \<times> world) option" where
  "play st [] = Some st"
| "play (b, w) (c # cs) =
     (case handleClick b w c of None \<Rightarrow> None | Some (e, b', w') \<Rightarrow> play (b', w') cs)"

text \<open>The six neighbours of a coordinate pair, by the parity of its row.\<close>

definition hex_neighbour :: "int \<times> int \<Rightarrow> int \<times> int \<Rightarrow> bool" where
  "hex_neighbour p q =
     (case p of (x, y) \<Rightarrow>
        if even y
        then q \<in> {(x - 1, y - 1), (x, y - 1), (x - 1, y), (x + 1, y), (x - 1, y + 1), (x, y + 1)}
        else q \<in> {(x, y - 1), (x + 1, y - 1), (x - 1, y), (x + 1, y), (x, y + 1), (x + 1, y + 1)})"

text \<open>Every Spot on the boundary's list was made by a Board constructed before now (so the
  Spots of the next Board are new objects).\<close>

definition boundary_made_earlier :: "world \<Rightarrow> bool" where
  "boundary_made_earlier w \<longleftrightarrow> (\<forall>c\<in>set (boundary_adjacent w). fst c < boards_built w)"

section \<open>Lemmas\<close>

subsection \<open>The inner loop, and the queue loop ends\<close>

lemma set_fresh: "set (fresh w seen ns) = {n \<in> set ns. n \<notin> seen \<and> \<not> blocked w n}"
  by (induction ns arbitrary: seen) auto

lemma distinct_fresh: "distinct (fresh w seen ns)"
  by (induction ns arbitrary: seen) (auto simp: set_fresh)

lemma fresh_distance_irrelevant: "fresh (w\<lparr>distance := d\<rparr>) seen ns = fresh w seen ns"
  by (induction ns arbitrary: seen) auto

lemma visit_eq:
  assumes "\<And>s. u = Spot s \<Longrightarrow> s \<in> seen"
  shows "visit u ns (q, seen, w) =
     (q @ map Spot (fresh w seen ns), seen \<union> set (fresh w seen ns),
      w\<lparr>distance := (\<lambda>c. if c \<in> set (fresh w seen ns) then node_distance w u + 1 else distance w c)\<rparr>)"
  using assms
proof (induction ns arbitrary: q seen w)
  case Nil
  then show ?case by simp
next
  case (Cons n ns)
  show ?case
  proof (cases "n \<in> seen \<or> blocked w n")
    case True
    then show ?thesis using Cons.IH [of seen q w] Cons.prems by simp
  next
    case False
    let ?w = "w\<lparr>distance := (distance w)(n := node_distance w u + 1)\<rparr>"
    have nd: "node_distance ?w u = node_distance w u"
      using False Cons.prems by (cases u) auto
    have "visit u ns (q @ [Spot n], insert n seen, ?w) =
      ((q @ [Spot n]) @ map Spot (fresh ?w (insert n seen) ns), insert n seen \<union> set (fresh ?w (insert n seen) ns),
       ?w\<lparr>distance := (\<lambda>c. if c \<in> set (fresh ?w (insert n seen) ns) then node_distance ?w u + 1 else distance ?w c)\<rparr>)"
      using Cons.prems by (intro Cons.IH) auto
    moreover have "(\<lambda>c. if c \<in> set (fresh ?w (insert n seen) ns) then node_distance ?w u + 1 else distance ?w c) =
        (\<lambda>c. if c \<in> set (fresh w seen (n # ns)) then node_distance w u + 1 else distance w c)"
      using False by (auto simp: fresh_distance_irrelevant nd)
    ultimately show ?thesis
      using False by (simp add: fresh_distance_irrelevant)
  qed
qed

lemma bfs_invariant:
  assumes "bfs q sn w = Some w'" and "I (q, sn, w)"
    and step: "\<And>u rest sn w. I (u # rest, sn, w) \<Longrightarrow> I (visit u (node_adjacent w u) (rest, sn, w))"
  shows "\<exists>sn'. I ([], sn', w')"
proof -
  have "I (q, sn, w) \<longrightarrow> (\<exists>sn'. I ([], sn', w'))"
    apply (rule bfs.raw_induct [where P = "\<lambda>q sn w w'. I (q, sn, w) \<longrightarrow> (\<exists>sn'. I ([], sn', w'))", OF _ assms(1)])
    subgoal premises prems for bfs' q sn w w'
    proof (cases q)
      case Nil
      then show ?thesis using prems(2) by auto
    next
      case (Cons u rest)
      obtain q1 sn1 w1 where v: "visit u (node_adjacent w u) (rest, sn, w) = (q1, sn1, w1)"
        by (metis prod_cases3)
      have "bfs' q1 sn1 w1 = Some w'" using prems(2) Cons v by simp
      then have "I (q1, sn1, w1) \<longrightarrow> (\<exists>sn'. I ([], sn', w'))" by (rule prems(1))
      moreover have "I (q, sn, w) \<Longrightarrow> I (q1, sn1, w1)" using step [of u rest sn w] Cons v by simp
      ultimately show ?thesis by blast
    qed
    done
  then show ?thesis using assms(2) by blast
qed

lemma bfs_terminates_aux:
  assumes "heap_closed w0" 
  shows "(\<exists>d. w = w0\<lparr>distance := d\<rparr>) \<Longrightarrow> seen \<subseteq> set (spots w0) \<Longrightarrow> set q \<subseteq> insert Boundary (Spot ` seen)
     \<Longrightarrow> \<exists>w'. bfs q seen w = Some w'"
proof (induction "2 * card (set (spots w0) - seen) + length q" arbitrary: q seen w rule: less_induct)
  case less
  show ?case
  proof (cases q)
    case Nil
    then show ?thesis by (simp add: bfs.simps)
  next
    case (Cons u rest)
    obtain d where w: "w = w0\<lparr>distance := d\<rparr>" using less.prems by blast
    let ?new = "fresh w seen (node_adjacent w u)"
    have u: "\<And>s. u = Spot s \<Longrightarrow> s \<in> seen" using less.prems Cons by auto
    have v: "visit u (node_adjacent w u) (rest, seen, w) =
       (rest @ map Spot ?new, seen \<union> set ?new,
        w\<lparr>distance := (\<lambda>c. if c \<in> set ?new then node_distance w u + 1 else distance w c)\<rparr>)"
      using u by (rule visit_eq)
    have adj: "set (node_adjacent w u) \<subseteq> set (spots w0)"
      using assms less.prems(2) u w by (cases u) (auto simp: heap_closed_def)
    have new_sub: "set ?new \<subseteq> set (spots w0) - seen"
      using adj by (auto simp: set_fresh)
    have "card (set (spots w0) - (seen \<union> set ?new)) + card (set ?new) = card (set (spots w0) - seen)"
    proof -
      have "set (spots w0) - seen = (set (spots w0) - (seen \<union> set ?new)) \<union> set ?new"
        using new_sub by auto
      moreover have "card ((set (spots w0) - (seen \<union> set ?new)) \<union> set ?new) =
         card (set (spots w0) - (seen \<union> set ?new)) + card (set ?new)"
        by (rule card_Un_disjoint) auto
      ultimately show ?thesis by simp
    qed
    moreover have "card (set ?new) = length ?new"
      by (simp add: distinct_card distinct_fresh)
    ultimately have m: "2 * card (set (spots w0) - (seen \<union> set ?new)) + length (rest @ map Spot ?new)
        < 2 * card (set (spots w0) - seen) + length q"
      using Cons by simp
    have "\<exists>w'. bfs (rest @ map Spot ?new) (seen \<union> set ?new)
        (w\<lparr>distance := (\<lambda>c. if c \<in> set ?new then node_distance w u + 1 else distance w c)\<rparr>) = Some w'"
    proof (rule less.hyps [OF m])
      show "\<exists>d. w\<lparr>distance := (\<lambda>c. if c \<in> set ?new then node_distance w u + 1 else distance w c)\<rparr> = w0\<lparr>distance := d\<rparr>"
        using w by auto
      show "seen \<union> set ?new \<subseteq> set (spots w0)" using less.prems(2) new_sub by auto
      show "set (rest @ map Spot ?new) \<subseteq> insert Boundary (Spot ` (seen \<union> set ?new))"
        using less.prems(3) Cons by auto
    qed
    then show ?thesis using Cons v by (subst bfs.simps) simp
  qed
qed

subsection \<open>Hops, and the invariant of the queue loop\<close>

lemma hops_zero: "hops w 0 u \<Longrightarrow> u = Boundary"
  by (cases rule: hops.cases) auto

lemma hops_Suc:
  "hops w (Suc k) v \<Longrightarrow> \<exists>p n. v = Spot n \<and> hops w k p \<and> n \<in> set (node_adjacent w p) \<and> \<not> blocked w n"
  by (cases rule: hops.cases) auto

lemma hops_unblocked: "hops w k (Spot n) \<Longrightarrow> \<not> blocked w n"
  by (cases rule: hops.cases) auto

lemma node_adjacent_distance_irrelevant [simp]:
  "node_adjacent (w\<lparr>distance := d\<rparr>) u = node_adjacent w u"
  by (cases u) auto

lemma hops_distance_irrelevant: "hops (w\<lparr>distance := d\<rparr>) k u = hops w k u"
proof
  assume "hops (w\<lparr>distance := d\<rparr>) k u"
  then show "hops w k u"
    by induction (auto intro: hops.intros)
next
  assume "hops w k u"
  then show "hops (w\<lparr>distance := d\<rparr>) k u"
    by induction (auto intro: hops.intros)
qed

lemma bfs_inv_step:
  assumes inv: "bfs_inv w0 cs (u # rest, seen, w)"
  shows "bfs_inv w0 cs (visit u (node_adjacent w u) (rest, seen, w))"
proof -
  let ?V = "insert Boundary (Spot ` seen)"
  let ?nd = "node_distance w"
  note inv' = inv [unfolded bfs_inv_def prod.case]
  from inv' have A0: "\<exists>d. w = w0\<lparr>distance := d\<rparr>"
    by (elim conjE) assumption
  from inv' have B: "set (u # rest) \<subseteq> ?V"
    by (elim conjE) assumption
  from inv' have C0: "\<forall>v\<in>?V. \<exists>k. ?nd v = enat k \<and> hops w0 k v \<and> (\<forall>j. hops w0 j v \<longrightarrow> k \<le> j)"
    by (elim conjE) assumption
  from inv' have D: "sorted_wrt (\<lambda>a b. ?nd a \<le> ?nd b) (u # rest)"
    by (elim conjE) assumption
  from inv' have E0: "\<forall>v\<in>set (u # rest). ?nd v \<le> ?nd (hd (u # rest)) + 1"
    by (elim conjE) assumption
  from inv' have F0: "\<forall>v\<in>?V - set (u # rest). \<forall>n\<in>set (node_adjacent w0 v). \<not> blocked w0 n \<longrightarrow> n \<in> seen"
    by (elim conjE) assumption
  from inv' have G0: "u # rest \<noteq> [] \<longrightarrow> (\<forall>v k. hops w0 k v \<longrightarrow> enat k \<le> ?nd (hd (u # rest)) \<longrightarrow> v \<in> ?V)"
    by (elim conjE) assumption
  from inv' have H0: "\<forall>c\<in>set cs. c \<notin> seen \<longrightarrow> distance w c = \<infinity>"
    by (elim conjE) assumption
  from A0 obtain d where w: "w = w0\<lparr>distance := d\<rparr>" ..
  have C: "\<And>v. v \<in> ?V \<Longrightarrow> \<exists>k. ?nd v = enat k \<and> hops w0 k v \<and> (\<forall>j. hops w0 j v \<longrightarrow> k \<le> j)"
    using C0 by blast
  have E: "\<And>v. v \<in> set (u # rest) \<Longrightarrow> ?nd v \<le> ?nd u + 1"
    using E0 by auto
  have F: "\<And>v n. v \<in> ?V - set (u # rest) \<Longrightarrow> n \<in> set (node_adjacent w0 v) \<Longrightarrow> \<not> blocked w0 n \<Longrightarrow> n \<in> seen"
    using F0 by blast
  have G: "\<And>v k. hops w0 k v \<Longrightarrow> enat k \<le> ?nd u \<Longrightarrow> v \<in> ?V"
    using G0 by simp
  have H: "\<And>c. c \<in> set cs \<Longrightarrow> c \<notin> seen \<Longrightarrow> distance w c = \<infinity>"
    using H0 by blast
  have uV: "u \<in> ?V" using B by simp
  then have useen: "\<And>s. u = Spot s \<Longrightarrow> s \<in> seen" by auto
  from C [OF uV] obtain k where k: "?nd u = enat k" "hops w0 k u" "\<And>j. hops w0 j u \<Longrightarrow> k \<le> j"
    by blast
  define new where "new = fresh w seen (node_adjacent w u)"
  define w' where "w' = w\<lparr>distance := (\<lambda>c. if c \<in> set new then ?nd u + 1 else distance w c)\<rparr>"
  let ?nd' = "node_distance w'"
  let ?V' = "insert Boundary (Spot ` (seen \<union> set new))"
  have v: "visit u (node_adjacent w u) (rest, seen, w) = (rest @ map Spot new, seen \<union> set new, w')"
    unfolding new_def w'_def using useen by (rule visit_eq)
  have adj: "node_adjacent w u = node_adjacent w0 u" and blk: "blocked w = blocked w0"
    using w by simp_all
  have new: "set new = {n \<in> set (node_adjacent w0 u). n \<notin> seen \<and> \<not> blocked w0 n}"
    unfolding new_def by (simp add: set_fresh adj blk)
  have nd_old: "?nd' a = ?nd a" if "a \<in> ?V" for a
    using that new by (cases a) (auto simp: w'_def)
  have nd_new: "distance w' n = enat (Suc k)" if "n \<in> set new" for n
    using that k(1) by (simp add: w'_def eSuc_enat [symmetric] plus_1_eSuc)
  have A': "\<exists>d. w' = w0\<lparr>distance := d\<rparr>" using w by (auto simp: w'_def)
  have B': "set (rest @ map Spot new) \<subseteq> ?V'" using B by auto
  have restV: "\<And>a. a \<in> set rest \<Longrightarrow> a \<in> ?V" using B by auto
  have rest_ge: "\<And>a. a \<in> set rest \<Longrightarrow> enat k \<le> ?nd a" using D k(1) by auto
  have rest_le: "\<And>a. a \<in> set rest \<Longrightarrow> ?nd a \<le> enat (Suc k)"
    using E k(1) by (auto simp: eSuc_enat [symmetric] plus_1_eSuc)
  have C': "\<exists>j. ?nd' a = enat j \<and> hops w0 j a \<and> (\<forall>i. hops w0 i a \<longrightarrow> j \<le> i)" if aV': "a \<in> ?V'" for a
  proof (cases "a \<in> ?V")
    case True
    then show ?thesis using C [OF True] nd_old by simp
  next
    case False
    then obtain n where a: "a = Spot n" "n \<in> set new" "n \<notin> seen" using aV' by auto
    have h: "hops w0 (Suc k) (Spot n)"
      using k(2) a(2) new by (auto intro: hops_step)
    have "Suc k \<le> i" if "hops w0 i (Spot n)" for i
    proof (rule ccontr)
      assume "\<not> Suc k \<le> i"
      then have "enat i \<le> ?nd u" using k(1) by simp
      from G [OF that this] show False using a(3) by auto
    qed
    then show ?thesis using a nd_new h by auto
  qed
  have q'_ge: "enat k \<le> ?nd' a" and q'_le: "?nd' a \<le> enat (Suc k)" if "a \<in> set (rest @ map Spot new)" for a
    using that rest_ge rest_le nd_old restV nd_new by auto
  have D': "sorted_wrt (\<lambda>a b. ?nd' a \<le> ?nd' b) (rest @ map Spot new)"
  proof -
    have "sorted_wrt (\<lambda>a b. ?nd a \<le> ?nd b) rest" using D by simp
    then have "sorted_wrt (\<lambda>a b. ?nd' a \<le> ?nd' b) rest"
      by (rule sorted_wrt_mono_rel [rotated]) (use nd_old restV in auto)
    moreover have "sorted_wrt (\<lambda>a b. ?nd' a \<le> ?nd' b) (map Spot new)"
      by (rule sorted_wrt_mono_rel [where P = "\<lambda>a b. True"]) (auto simp: nd_new sorted_wrt_true)
    ultimately show ?thesis
      using rest_le nd_old restV nd_new by (auto simp: sorted_wrt_append)
  qed
  have E': "?nd' a \<le> ?nd' (hd (rest @ map Spot new)) + 1" if "a \<in> set (rest @ map Spot new)" for a
  proof -
    from that have ne: "rest @ map Spot new \<noteq> []" by auto
    then have "hd (rest @ map Spot new) \<in> set (rest @ map Spot new)" by (rule hd_in_set)
    then have "enat k \<le> ?nd' (hd (rest @ map Spot new))" by (rule q'_ge)
    then have "enat (Suc k) \<le> ?nd' (hd (rest @ map Spot new)) + 1"
      by (metis eSuc_enat eSuc_ile_mono plus_1_eSuc(2))
    then show ?thesis using q'_le [OF that] by (rule order_trans [rotated])
  qed
  have F': "n \<in> seen \<union> set new"
    if "a \<in> ?V' - set (rest @ map Spot new)" "n \<in> set (node_adjacent w0 a)" "\<not> blocked w0 n" for a n
  proof (cases "a = u")
    case True
    then show ?thesis using that new by auto
  next
    case False
    then have "a \<in> ?V - set (u # rest)" using that(1) by auto
    from F [OF this that(2,3)] show ?thesis by simp
  qed
  have G': "a \<in> ?V'"
    if ne: "rest @ map Spot new \<noteq> []" and h: "hops w0 j a" and le: "enat j \<le> ?nd' (hd (rest @ map Spot new))" for a j
  proof (cases "j \<le> k")
    case True
    then have "enat j \<le> ?nd u" using k(1) by simp
    from G [OF h this] show ?thesis by auto
  next
    case False
    have hq: "hd (rest @ map Spot new) \<in> set (rest @ map Spot new)" using ne by (rule hd_in_set)
    have "enat j \<le> enat (Suc k)" using le q'_le [OF hq] by (rule order_trans)
    then have j: "j = Suc k" using False by simp
    then have hd_eq: "?nd' (hd (rest @ map Spot new)) = enat (Suc k)"
      using le q'_le [OF hq] by simp
    from hops_Suc [OF h [unfolded j]] obtain p n where
      p: "a = Spot n" "hops w0 k p" "n \<in> set (node_adjacent w0 p)" "\<not> blocked w0 n"
      by blast
    have pV: "p \<in> ?V" using G [OF p(2)] k(1) by simp
    from C [OF pV] obtain kp where kp: "?nd p = enat kp" "\<And>i. hops w0 i p \<Longrightarrow> kp \<le> i" by blast
    have "kp \<le> k" using kp(2) p(2) by simp
    then have ndp: "?nd' p \<le> enat k" using kp(1) nd_old [OF pV] by simp
    have "p \<notin> set (rest @ map Spot new)"
    proof
      assume pin: "p \<in> set (rest @ map Spot new)"
      have "?nd' (hd (rest @ map Spot new)) \<le> ?nd' p"
      proof (cases "p = hd (rest @ map Spot new)")
        case True
        then show ?thesis by simp
      next
        case False
        obtain x xs where xs: "rest @ map Spot new = x # xs" using ne by (cases "rest @ map Spot new") auto
        then have "p \<in> set xs" using pin False by auto
        moreover have "sorted_wrt (\<lambda>a b. ?nd' a \<le> ?nd' b) (x # xs)" using D' xs by simp
        ultimately show ?thesis using xs by auto
      qed
      then have "enat (Suc k) \<le> ?nd' p" using hd_eq by simp
      then have "enat (Suc k) \<le> enat k" using ndp by (rule order_trans)
      then show False by simp
    qed
    then have "p \<in> ?V' - set (rest @ map Spot new)" using pV by auto
    from F' [OF this p(3,4)] show ?thesis using p(1) by auto
  qed
  have H': "distance w' c = \<infinity>" if "c \<in> set cs" "c \<notin> seen \<union> set new" for c
    using that H by (auto simp: w'_def)
  show ?thesis
    unfolding v bfs_inv_def prod.case
    apply (intro conjI ballI impI allI)
    subgoal by (rule A')
    subgoal by (rule B')
    subgoal by (rule C')
    subgoal by (rule D')
    subgoal by (rule E')
    subgoal by (rule F')
    subgoal by (rule G')
    subgoal by (rule H')
    done
qed

subsection \<open>updateDistances labels with least hop counts\<close>

lemma foldl_reset:
  "foldl (\<lambda>w s. w\<lparr>distance := (distance w)(s := \<infinity>)\<rparr>) w cs =
     w\<lparr>distance := (\<lambda>c. if c \<in> set cs then \<infinity> else distance w c)\<rparr>"
proof (induction cs arbitrary: w)
  case Nil
  then show ?case by simp
next
  case (Cons a cs)
  have fe: "(\<lambda>c. if c \<in> set cs then \<infinity> else ((distance w)(a := \<infinity>)) c) =
        (\<lambda>c. if c \<in> set (a # cs) then \<infinity> else distance w c)"
    by auto
  have "foldl (\<lambda>w s. w\<lparr>distance := (distance w)(s := \<infinity>)\<rparr>) w (a # cs) =
        foldl (\<lambda>w s. w\<lparr>distance := (distance w)(s := \<infinity>)\<rparr>) (w\<lparr>distance := (distance w)(a := \<infinity>)\<rparr>) cs"
    by simp
  also have "\<dots> = w\<lparr>distance := (\<lambda>c. if c \<in> set cs then \<infinity> else ((distance w)(a := \<infinity>)) c)\<rparr>"
    unfolding Cons.IH by (simp cong: if_cong)
  also have "\<dots> = w\<lparr>distance := (\<lambda>c. if c \<in> set (a # cs) then \<infinity> else distance w c)\<rparr>"
    unfolding fe ..
  finally show ?case .
qed

lemma reset_distances_eq:
  "reset_distances b w = w\<lparr>distance := (\<lambda>c. if c \<in> set (cells b) then \<infinity> else distance w c)\<rparr>"
  unfolding reset_distances_def by (rule foldl_reset)

lemma heap_closed_distance_irrelevant [simp]: "heap_closed (w\<lparr>distance := d\<rparr>) = heap_closed w"
  by (simp add: heap_closed_def)

lemma bfs_inv_init:
  assumes "\<forall>c\<in>set cs. distance w0 c = \<infinity>"
  shows "bfs_inv w0 cs ([Boundary], {}, w0)"
proof -
  have A: "\<exists>d. w0 = w0\<lparr>distance := d\<rparr>"
    by (rule exI [of _ "distance w0"]) simp
  have C: "\<exists>k. node_distance w0 u = enat k \<and> hops w0 k u \<and> (\<forall>j. hops w0 j u \<longrightarrow> k \<le> j)"
    if "u \<in> insert Boundary (Spot ` {})" for u
    using that by (auto simp: zero_enat_def intro: hops_start)
  have G: "u \<in> insert Boundary (Spot ` {})"
    if "hops w0 k u" "enat k \<le> node_distance w0 (hd [Boundary])" for u k
  proof -
    have "k = 0" using that(2) by (simp add: zero_enat_def)
    then show ?thesis using that(1) hops_zero by auto
  qed
  show ?thesis
    unfolding bfs_inv_def prod.case
    apply (intro conjI ballI impI allI)
    subgoal by (rule A)
    subgoal by simp
    subgoal by (rule C)
    subgoal by simp
    subgoal by simp
    subgoal by simp
    subgoal by (rule G)
    subgoal using assms by simp
    done
qed

lemma bfs_inv_final:
  assumes inv: "bfs_inv w0 cs ([], seen, w')"
  shows "(\<exists>d. w' = w0\<lparr>distance := d\<rparr>)"
    and "\<And>c k. hops w0 k (Spot c) \<Longrightarrow> (\<And>j. hops w0 j (Spot c) \<Longrightarrow> k \<le> j) \<Longrightarrow> distance w' c = enat k"
    and "\<And>c. c \<in> set cs \<Longrightarrow> (\<And>k. \<not> hops w0 k (Spot c)) \<Longrightarrow> distance w' c = \<infinity>"
proof -
  let ?V = "insert Boundary (Spot ` seen)"
  note inv' = inv [unfolded bfs_inv_def prod.case]
  from inv' show A: "\<exists>d. w' = w0\<lparr>distance := d\<rparr>"
    by (elim conjE) assumption
  from inv' have C0: "\<forall>v\<in>?V. \<exists>k. node_distance w' v = enat k \<and> hops w0 k v \<and> (\<forall>j. hops w0 j v \<longrightarrow> k \<le> j)"
    by (elim conjE) assumption
  from inv' have F0: "\<forall>v\<in>?V - set []. \<forall>n\<in>set (node_adjacent w0 v). \<not> blocked w0 n \<longrightarrow> n \<in> seen"
    by (elim conjE) assumption
  from inv' have H0: "\<forall>c\<in>set cs. c \<notin> seen \<longrightarrow> distance w' c = \<infinity>"
    by (elim conjE) assumption
  have reach: "u \<in> ?V" if "hops w0 k u" for k u
    using that
  proof induction
    case hops_start
    then show ?case by simp
  next
    case (hops_step k u n)
    have "u \<in> ?V - set []" using hops_step.IH by simp
    with F0 have "\<forall>n\<in>set (node_adjacent w0 u). \<not> blocked w0 n \<longrightarrow> n \<in> seen" by (rule bspec)
    then have "n \<in> seen" using hops_step.hyps(2,3) by blast
    then show ?case by simp
  qed
  show "distance w' c = enat k" if h: "hops w0 k (Spot c)" and m: "\<And>j. hops w0 j (Spot c) \<Longrightarrow> k \<le> j" for c k
  proof -
    have "Spot c \<in> ?V" using h by (rule reach)
    with C0 obtain k' where k': "node_distance w' (Spot c) = enat k'" "hops w0 k' (Spot c)"
      "\<forall>j. hops w0 j (Spot c) \<longrightarrow> k' \<le> j" by blast
    have "k \<le> k'" using m k'(2) by blast
    moreover have "k' \<le> k" using k'(3) h by blast
    ultimately show ?thesis using k'(1) by simp
  qed
  show "distance w' c = \<infinity>" if "c \<in> set cs" and no: "\<And>k. \<not> hops w0 k (Spot c)" for c
  proof -
    have "c \<notin> seen"
    proof
      assume "c \<in> seen"
      then have "Spot c \<in> ?V" by simp
      with C0 obtain k' where "hops w0 k' (Spot c)" by blast
      then show False using no by blast
    qed
    then show ?thesis using H0 that(1) by blast
  qed
qed

lemma updateDistances_total:
  assumes "heap_closed w"
  shows "\<exists>w'. updateDistances b w = Some w'"
proof -
  let ?w0 = "reset_distances b w"
  have "heap_closed ?w0" using assms by (simp add: reset_distances_eq)
  then show ?thesis
    unfolding updateDistances_def
    by (rule bfs_terminates_aux) (auto intro: exI [of _ "distance (reset_distances b w)"])
qed

lemma updateDistances_correct:
  assumes "updateDistances b w = Some w'"
  shows "\<exists>d. w' = w\<lparr>distance := d\<rparr>"
    and "\<And>c k. hops w k (Spot c) \<Longrightarrow> (\<And>j. hops w j (Spot c) \<Longrightarrow> k \<le> j) \<Longrightarrow> distance w' c = enat k"
    and "\<And>c. c \<in> set (cells b) \<Longrightarrow> (\<And>k. \<not> hops w k (Spot c)) \<Longrightarrow> distance w' c = \<infinity>"
proof -
  let ?w0 = "reset_distances b w"
  have hops_eq: "hops ?w0 k u = hops w k u" for k u
    by (simp add: reset_distances_eq hops_distance_irrelevant)
  have init: "bfs_inv ?w0 (cells b) ([Boundary], {}, ?w0)"
    by (rule bfs_inv_init) (simp add: reset_distances_eq)
  have "\<exists>sn'. bfs_inv ?w0 (cells b) ([], sn', w')"
    using assms [unfolded updateDistances_def] init
    by (rule bfs_invariant) (rule bfs_inv_step)
  then obtain sn' where fin: "bfs_inv ?w0 (cells b) ([], sn', w')" ..
  from bfs_inv_final(1) [OF fin] show "\<exists>d. w' = w\<lparr>distance := d\<rparr>"
    by (auto simp: reset_distances_eq)
  show "distance w' c = enat k" if "hops w k (Spot c)" "\<And>j. hops w j (Spot c) \<Longrightarrow> k \<le> j" for c k
    using bfs_inv_final(2) [OF fin, of k c] that by (simp add: hops_eq)
  show "distance w' c = \<infinity>" if "c \<in> set (cells b)" "\<And>k. \<not> hops w k (Spot c)" for c
    using bfs_inv_final(3) [OF fin, of c] that by (simp add: hops_eq)
qed

subsection \<open>The loops of the constructor\<close>

lemma set_grid_keys:
  "(x, y) \<in> set (grid_keys h w) \<longleftrightarrow>
     0 \<le> y \<and> y < h \<and> 0 \<le> x \<and> x < w \<and> \<not> (x = 0 \<and> (y = 0 \<or> y = h - 1))"
  by (auto simp: grid_keys_def)

lemma distinct_row: "distinct xs \<Longrightarrow> distinct [(x, y). x \<leftarrow> xs, P x y]"
  by (induction xs) auto

lemma distinct_rows:
  "distinct ys \<Longrightarrow> distinct xs \<Longrightarrow> distinct [(x, y). y \<leftarrow> ys, x \<leftarrow> xs, P x y]"
proof (induction ys)
  case Nil
  then show ?case by simp
next
  case (Cons y ys)
  then show ?case by (auto simp: distinct_row)
qed

lemma distinct_grid_keys: "distinct (grid_keys h w)"
  unfolding grid_keys_def by (rule distinct_rows) simp_all

lemma js_rem_2: "js_rem y 2 = 0 \<longleftrightarrow> even y"
  by (auto simp: js_rem_def sgn_if)

lemma foldl_Spot_new_spots: "spots (foldl Spot_new w cs) = spots w @ cs"
  by (induction cs arbitrary: w) (auto simp: Spot_new_def)

lemma foldl_Spot_new_blocked:
  "blocked (foldl Spot_new w cs) = (\<lambda>c. if c \<in> set cs then False else blocked w c)"
  by (induction cs arbitrary: w) (auto simp: Spot_new_def fun_eq_iff)

lemma foldl_Spot_new_distance:
  "distance (foldl Spot_new w cs) = (\<lambda>c. if c \<in> set cs then \<infinity> else distance w c)"
  by (induction cs arbitrary: w) (auto simp: Spot_new_def fun_eq_iff)

lemma foldl_Spot_new_adjacent:
  "adjacent (foldl Spot_new w cs) = (\<lambda>c. if c \<in> set cs then [] else adjacent w c)"
  by (induction cs arbitrary: w) (auto simp: Spot_new_def fun_eq_iff)

lemma foldl_Spot_new_others:
  "boundary_adjacent (foldl Spot_new w cs) = boundary_adjacent w \<and>
   boards_built (foldl Spot_new w cs) = boards_built w \<and>
   console (foldl Spot_new w cs) = console w \<and>
   random_source (foldl Spot_new w cs) = random_source w \<and>
   random_calls (foldl Spot_new w cs) = random_calls w"
  by (induction cs arbitrary: w) (auto simp: Spot_new_def)

lemma createGraph_adjacent:
  "adjacent (foldl (createGraph_spot b) w cs) =
     (\<lambda>c. if c \<in> set cs then [n. Some n \<leftarrow> cands b c] else adjacent w c)"
  by (induction cs arbitrary: w) (auto simp: createGraph_spot_def Let_def fun_eq_iff)

lemma createGraph_boundary:
  "boundary_adjacent (foldl (createGraph_spot b) w cs) = boundary_adjacent w @ filter (on_rim b) cs"
  by (induction cs arbitrary: w) (auto simp: createGraph_spot_def Let_def)

lemma createGraph_others:
  "spots (foldl (createGraph_spot b) w cs) = spots w \<and>
   blocked (foldl (createGraph_spot b) w cs) = blocked w \<and>
   distance (foldl (createGraph_spot b) w cs) = distance w \<and>
   boards_built (foldl (createGraph_spot b) w cs) = boards_built w \<and>
   console (foldl (createGraph_spot b) w cs) = console w \<and>
   random_source (foldl (createGraph_spot b) w cs) = random_source w \<and>
   random_calls (foldl (createGraph_spot b) w cs) = random_calls w"
  by (induction cs arbitrary: w) (auto simp: createGraph_spot_def Let_def)

lemma grid_get_cells: "grid_get b k = Some c \<Longrightarrow> c \<in> set (cells b)"
  unfolding grid_get_def cells_def by (drule map_of_SomeD) force

lemma pick_spot_cells: "pick_spot b w = (Some s, w1) \<Longrightarrow> s \<in> set (cells b)"
  by (auto simp: pick_spot_def Math_random_def Let_def split: prod.splits intro: grid_get_cells)

lemma pick_spot_world: "pick_spot b w = (s, w1) \<Longrightarrow> w1 = w\<lparr>random_calls := random_calls w + 4\<rparr>"
  by (auto simp: pick_spot_def Math_random_def Let_def split: prod.splits)

lemma blocks_only_refl: "blocks_only b w w"
  unfolding blocks_only_def
  by (rule exI [of _ "blocked w"], rule exI [of _ "random_calls w"]) simp

lemma blocks_only_trans:
  assumes "blocks_only b w w1" "blocks_only b w1 w2"
  shows "blocks_only b w w2"
proof -
  from assms(1) obtain bl rc where 1: "w1 = w\<lparr>blocked := bl, random_calls := rc\<rparr>"
    "\<forall>c. blocked w c \<longrightarrow> bl c" "\<forall>c. cat b = Some c \<longrightarrow> bl c = blocked w c"
    "\<forall>c. c \<notin> set (cells b) \<longrightarrow> bl c = blocked w c"
    unfolding blocks_only_def by blast
  from assms(2) obtain bl' rc' where 2: "w2 = w1\<lparr>blocked := bl', random_calls := rc'\<rparr>"
    "\<forall>c. blocked w1 c \<longrightarrow> bl' c" "\<forall>c. cat b = Some c \<longrightarrow> bl' c = blocked w1 c"
    "\<forall>c. c \<notin> set (cells b) \<longrightarrow> bl' c = blocked w1 c"
    unfolding blocks_only_def by blast
  have "w2 = w\<lparr>blocked := bl', random_calls := rc'\<rparr>" using 1(1) 2(1) by simp
  moreover have "\<forall>c. blocked w c \<longrightarrow> bl' c"
    using 1 2 by simp
  moreover have "\<forall>c. cat b = Some c \<longrightarrow> bl' c = blocked w c"
    using 1 2 by simp
  moreover have "\<forall>c. c \<notin> set (cells b) \<longrightarrow> bl' c = blocked w c"
    using 1 2 by simp
  ultimately show ?thesis unfolding blocks_only_def by blast
qed

lemma setInitialBlocks_loop_blocks_only:
  assumes "setInitialBlocks_loop b nb i w = Some w'"
  shows "blocks_only b w w'"
proof -
  show ?thesis
    apply (rule setInitialBlocks_loop.raw_induct [where P = "\<lambda>b nb i w w'. blocks_only b w w'", OF _ assms])
    subgoal premises prems for loop b nb i w w'
    proof (cases "i < nb")
      case False
      then show ?thesis using prems(2) by (simp add: blocks_only_refl)
    next
      case True
      obtain s w1 where p: "pick_spot b w = (s, w1)" by (cases "pick_spot b w")
      have w1: "w1 = w\<lparr>random_calls := random_calls w + 4\<rparr>" using p by (rule pick_spot_world)
      have step1: "blocks_only b w w1"
        unfolding blocks_only_def w1
        by (rule exI [of _ "blocked w"], rule exI [of _ "random_calls w + 4"]) simp
      show ?thesis
      proof (cases s)
        case None
        then have "loop b nb i w1 = Some w'" using prems(2) True p by simp
        then have "blocks_only b w1 w'" by (rule prems(1))
        with step1 show ?thesis by (rule blocks_only_trans)
      next
        case (Some spot)
        show ?thesis
        proof (cases "\<not> blocked w1 spot \<and> cat b \<noteq> Some spot")
          case False
          then have "loop b nb i w1 = Some w'" using prems(2) True p Some by auto
          then have "blocks_only b w1 w'" by (rule prems(1))
          with step1 show ?thesis by (rule blocks_only_trans)
        next
          case yes: True
          let ?w2 = "w1\<lparr>blocked := (blocked w1)(spot := True)\<rparr>"
          have "loop b nb (i + 1) ?w2 = Some w'" using prems(2) True p Some yes by simp
          then have 3: "blocks_only b ?w2 w'" by (rule prems(1))
          have "spot \<in> set (cells b)" using p Some by (intro pick_spot_cells [of b w spot w1]) simp
          then have 2: "blocks_only b w1 ?w2"
            unfolding blocks_only_def
            by (intro exI [of _ "(blocked w1)(spot := True)"] exI [of _ "random_calls w1"])
              (use yes in auto)
          from step1 2 have "blocks_only b w ?w2" by (rule blocks_only_trans)
          then show ?thesis using 3 by (rule blocks_only_trans)
        qed
      qed
    qed
    done
qed

subsection \<open>The move policy picks a nearest neighbour\<close>

lemma cands_cells: "Some n \<in> set (cands b s) \<Longrightarrow> n \<in> set (cells b)"
  by (auto simp: cands_def Let_def dest: grid_get_cells [OF sym] split: if_splits)

lemma neighbours_cells: "set [n. Some n \<leftarrow> cands b s] \<subseteq> set (cells b)"
  by (auto dest: cands_cells)

lemma Math_min_fold: "foldl min (a::enat) xs \<le> a \<and> (\<forall>x\<in>set xs. foldl min a xs \<le> x) \<and>
    (foldl min a xs = a \<or> foldl min a xs \<in> set xs)"
proof (induction xs arbitrary: a)
  case Nil
  then show ?case by simp
next
  case (Cons x xs)
  from Cons.IH [of "min a x"] show ?case
    by (auto simp: min_def split: if_splits)
qed

lemma Math_min_le: "x \<in> set xs \<Longrightarrow> Math_min xs \<le> x"
  using Math_min_fold [of \<infinity> xs] by (simp add: Math_min_def)

lemma Math_min_in: "xs \<noteq> [] \<Longrightarrow> Math_min xs \<in> set xs"
proof -
  assume ne: "xs \<noteq> []"
  show ?thesis
  proof (cases "Math_min xs = \<infinity>")
    case False
    then show ?thesis using Math_min_fold [of \<infinity> xs] unfolding Math_min_def by metis
  next
    case True
    have "hd xs \<in> set xs" using ne by simp
    then have "Math_min xs \<le> hd xs" by (rule Math_min_le)
    then have "hd xs = \<infinity>" using True by simp
    then show ?thesis using True \<open>hd xs \<in> set xs\<close> by simp
  qed
qed

lemma paths_nonempty:
  assumes "adj \<noteq> []"
  shows "filter (\<lambda>n. f n = Math_min (map f adj)) adj \<noteq> []"
proof -
  have "Math_min (map f adj) \<in> set (map f adj)" using assms by (intro Math_min_in) simp
  then obtain n where "n \<in> set adj" "f n = Math_min (map f adj)" by auto
  then show ?thesis by (auto simp: filter_empty_conv)
qed

lemma random_index:
  assumes "0 \<le> r" "r < 1" "xs \<noteq> []"
  shows "\<exists>m. js_index xs \<lfloor>r * real (length xs)\<rfloor> = Some m \<and> m \<in> set xs"
proof -
  let ?i = "\<lfloor>r * real (length xs)\<rfloor>"
  have len: "0 < real (length xs)" using assms(3) by simp
  have "0 \<le> r * real (length xs)" using assms(1) by simp
  then have 0: "0 \<le> ?i" by simp
  have "r * real (length xs) < 1 * real (length xs)"
    using assms(2) len by (intro mult_strict_right_mono)
  then have "r * real (length xs) < real_of_int (int (length xs))" by simp
  then have 1: "?i < int (length xs)" by (subst floor_less_iff)
  have "nat ?i < length xs" using 0 1 by linarith
  then have "xs ! nat ?i \<in> set xs" by (rule nth_mem)
  moreover have "js_index xs ?i = Some (xs ! nat ?i)"
    unfolding js_index_def using 0 1 by (intro if_P conjI)
  ultimately show ?thesis by blast
qed

lemma nextStepForCat_unfold:
  assumes "updateDistances b w = Some w1" "cat b = Some c"
  shows "nextStepForCat b w =
    Some (Inr (js_index (filter (\<lambda>n. distance w1 n = Math_min (map (distance w1) (adjacent w1 c))) (adjacent w1 c))
                 \<lfloor>random_source w1 (random_calls w1) *
                  real (length (filter (\<lambda>n. distance w1 n = Math_min (map (distance w1) (adjacent w1 c))) (adjacent w1 c)))\<rfloor>),
          w1\<lparr>random_calls := Suc (random_calls w1)\<rparr>)"
  using assms by (simp add: nextStepForCat_def Let_def Math_random_def)

lemma nextStepForCat_choice:
  assumes ud: "updateDistances b w = Some w1" and cat: "cat b = Some c" and adj: "adjacent w c \<noteq> []"
    and r: "0 \<le> random_source w (random_calls w)" "random_source w (random_calls w) < 1"
  shows "\<exists>m. nextStepForCat b w = Some (Inr (Some m), w1\<lparr>random_calls := Suc (random_calls w)\<rparr>) \<and>
           m \<in> set (adjacent w c) \<and> (\<forall>n\<in>set (adjacent w c). distance w1 m \<le> distance w1 n)"
proof -
  from updateDistances_correct(1) [OF ud] obtain d where w1: "w1 = w\<lparr>distance := d\<rparr>" ..
  have f: "adjacent w1 c = adjacent w c" "random_source w1 = random_source w" "random_calls w1 = random_calls w"
    using w1 by simp_all
  let ?min = "Math_min (map (distance w1) (adjacent w c))"
  let ?paths = "filter (\<lambda>n. distance w1 n = ?min) (adjacent w c)"
  have "?paths \<noteq> []" using adj by (rule paths_nonempty)
  with r obtain m where m: "js_index ?paths \<lfloor>random_source w (random_calls w) * real (length ?paths)\<rfloor> = Some m"
    "m \<in> set ?paths" using random_index by blast
  have "nextStepForCat b w = Some (Inr (Some m), w1\<lparr>random_calls := Suc (random_calls w)\<rparr>)"
    unfolding nextStepForCat_unfold [OF ud cat] f using m(1) by simp
  moreover have "m \<in> set (adjacent w c)" using m(2) by simp
  moreover have "distance w1 m \<le> distance w1 n" if "n \<in> set (adjacent w c)" for n
  proof -
    have "distance w1 m = ?min" using m(2) by simp
    moreover have "?min \<le> distance w1 n" using that by (intro Math_min_le) simp
    ultimately show ?thesis by simp
  qed
  ultimately show ?thesis by blast
qed

lemma updateDistances_finite_unblocked:
  assumes "updateDistances b w = Some w1" "c \<in> set (cells b)" "distance w1 c \<noteq> \<infinity>"
  shows "\<not> blocked w c"
proof -
  have "\<exists>k. hops w k (Spot c)"
    using updateDistances_correct(3) [OF assms(1,2)] assms(3) by blast
  then show ?thesis using hops_unblocked by blast
qed

subsection \<open>What the constructor builds; the invariant of a game\<close>

lemma js_index_Some: "js_index xs i = Some m \<Longrightarrow> m \<in> set xs"
  by (auto simp: js_index_def split: if_splits)

lemma console_assert_fields:
  "boundary_adjacent (console_assert ok msg w) = boundary_adjacent w"
  "spots (console_assert ok msg w) = spots w"
  "blocked (console_assert ok msg w) = blocked w"
  "adjacent (console_assert ok msg w) = adjacent w"
  "distance (console_assert ok msg w) = distance w"
  "boards_built (console_assert ok msg w) = boards_built w"
  by (simp_all add: console_assert_def)

lemma cat_update_irrelevant:
  "grid_get (b\<lparr>cat := c\<rparr>) = grid_get b"
  "cells (b\<lparr>cat := c\<rparr>) = cells b"
  "on_rim (b\<lparr>cat := c\<rparr>) = on_rim b"
  by (simp_all add: fun_eq_iff grid_get_def cells_def on_rim_def)

lemma cands_cat_update: "cands (b\<lparr>cat := c\<rparr>) = cands b"
  by (rule ext) (simp only: cands_def cat_update_irrelevant(1))

lemma Board_new_structure:
  assumes "Board_new w h wd nb = Some (b, w')"
  shows "ident b = boards_built w"
    and "height b = h" and "width b = wd"
    and "grid b = map (\<lambda>(x, y). ((x, y), (boards_built w, x, y))) (grid_keys h wd)"
    and "\<exists>k. cat b = grid_get b k"
    and "boundary_adjacent w' = boundary_adjacent w @ filter (on_rim b) (cells b)"
    and "adjacent w' = (\<lambda>c. if c \<in> set (cells b) then [n. Some n \<leftarrow> cands b c] else adjacent w c)"
    and "spots w' = spots w @ cells b"
    and "boards_built w' = Suc (boards_built w)"
    and "\<And>c. cat b = Some c \<Longrightarrow> \<not> blocked w' c"
    and "random_source w' = random_source w"
    and "\<And>c. c \<notin> set (cells b) \<Longrightarrow> blocked w' c = blocked w c"
proof -
  define w1 where "w1 = console_assert (js_rem h 2 \<noteq> 0 \<and> js_rem wd 2 \<noteq> 0) ''Height & width must be odd'' w"
  define b0 where "b0 = \<lparr>ident = boards_built w1, height = h, width = wd,
                grid = map (\<lambda>(x, y). ((x, y), (boards_built w1, x, y))) (grid_keys h wd), cat = None\<rparr>"
  define w2 where "w2 = foldl Spot_new (w1\<lparr>boards_built := Suc (boards_built w1)\<rparr>) (cells b0)"
  define w3 where "w3 = createGraph b0 w2"
  obtain b1 w4 where sc: "setInitialCat b0 w3 = (b1, w4)" by (cases "setInitialCat b0 w3")
  have bn: "Board_new w h wd nb = (case setInitialBlocks b1 nb w4 of None \<Rightarrow> None | Some w5 \<Rightarrow> Some (b1, w5))"
    unfolding Board_new_def Let_def w1_def [symmetric] b0_def [symmetric] w2_def [symmetric] w3_def [symmetric] sc
    by simp
  from assms bn have b: "b = b1" and sb: "setInitialBlocks_loop b1 nb 0 w4 = Some w'"
    by (auto simp: setInitialBlocks_def split: option.splits)
  from sc obtain k where b1: "b1 = b0\<lparr>cat := grid_get b0 k\<rparr>"
    and w4: "w4 = w3\<lparr>random_calls := Suc (Suc (random_calls w3))\<rparr>"
    by (auto simp: setInitialCat_def Math_random_def Let_def)
  have i: "boards_built w1 = boards_built w" by (simp add: w1_def console_assert_fields)
  show "ident b = boards_built w" "height b = h" "width b = wd"
    "grid b = map (\<lambda>(x, y). ((x, y), (boards_built w, x, y))) (grid_keys h wd)"
    by (simp_all add: b b1 b0_def i)
  have gg: "grid_get b = grid_get b0" "cells b = cells b0" "cands b = cands b0" "on_rim b = on_rim b0"
    by (simp_all add: b b1 cat_update_irrelevant cands_cat_update)
  show "\<exists>k. cat b = grid_get b k"
    by (rule exI [of _ k]) (simp add: b b1 cat_update_irrelevant)
  from setInitialBlocks_loop_blocks_only [OF sb] obtain bl rc where
    w': "w' = w4\<lparr>blocked := bl, random_calls := rc\<rparr>"
    and bl: "\<forall>c. cat b1 = Some c \<longrightarrow> bl c = blocked w4 c"
    and bl_out: "\<forall>c. c \<notin> set (cells b1) \<longrightarrow> bl c = blocked w4 c"
    unfolding blocks_only_def by blast
  show "boundary_adjacent w' = boundary_adjacent w @ filter (on_rim b) (cells b)"
    unfolding gg
    by (simp add: w' w4 w3_def createGraph_def createGraph_boundary w2_def foldl_Spot_new_others
        w1_def console_assert_fields)
  show "adjacent w' = (\<lambda>c. if c \<in> set (cells b) then [n. Some n \<leftarrow> cands b c] else adjacent w c)"
    unfolding gg
    by (simp add: w' w4 w3_def createGraph_def createGraph_adjacent w2_def foldl_Spot_new_adjacent
        w1_def console_assert_fields fun_eq_iff)
  show "spots w' = spots w @ cells b"
    unfolding gg
    by (simp add: w' w4 w3_def createGraph_def createGraph_others w2_def foldl_Spot_new_spots
        w1_def console_assert_fields)
  show "boards_built w' = Suc (boards_built w)"
    by (simp add: w' w4 w3_def createGraph_def createGraph_others w2_def foldl_Spot_new_others
        w1_def console_assert_fields)
  show "blocked w' c = blocked w c" if "c \<notin> set (cells b)" for c
  proof -
    have "bl c = blocked w4 c" using bl_out that b by blast
    moreover have "blocked w4 c = blocked w c"
      using that unfolding gg
      by (simp add: w4 w3_def createGraph_def createGraph_others w2_def foldl_Spot_new_blocked
          w1_def console_assert_fields)
    ultimately show ?thesis by (simp add: w')
  qed
  show "random_source w' = random_source w"
    by (simp add: w' w4 w3_def createGraph_def createGraph_others w2_def foldl_Spot_new_others
        w1_def console_assert_def)
  show "\<not> blocked w' c" if "cat b = Some c" for c
  proof -
    have "grid_get b0 k = Some c" using that by (simp add: b b1)
    then have "c \<in> set (cells b0)" by (rule grid_get_cells)
    then have "\<not> blocked w4 c"
      by (simp add: w4 w3_def createGraph_def createGraph_others w2_def foldl_Spot_new_blocked)
    moreover have "bl c = blocked w4 c" using bl that b by blast
    ultimately show ?thesis by (simp add: w')
  qed
qed

lemma Board_new_board_ok:
  assumes "Board_new w h wd nb = Some (b, w')"
  shows "board_ok b w'"
proof -
  note s = Board_new_structure [OF assms]
  have "set (adjacent w' c) \<subseteq> set (cells b)" if "c \<in> set (cells b)" for c
    unfolding s(7) using that neighbours_cells [of b c] by simp
  moreover have "c \<in> set (cells b)" if "cat b = Some c" for c
    using s(5) that by (auto dest: grid_get_cells [OF sym])
  ultimately show ?thesis using s(10) unfolding board_ok_def by blast
qed

lemma moveCat_result:
  assumes "moveCat b w = Some (e, b', w')"
  shows "\<exists>w1 rc. updateDistances b w = Some w1 \<and> w' = w1\<lparr>random_calls := rc\<rparr> \<and>
           (b' = b \<or> (\<exists>c m. cat b = Some c \<and> m \<in> set (adjacent w c) \<and> distance w1 m \<noteq> \<infinity> \<and>
                          b' = b\<lparr>cat := Some m\<rparr>))"
proof (cases "updateDistances b w")
  case None
  then show ?thesis using assms by (simp add: moveCat_def nextStepForCat_def)
next
  case (Some w1)
  from updateDistances_correct(1) [OF Some] obtain d where w1: "w1 = w\<lparr>distance := d\<rparr>" ..
  show ?thesis
  proof (cases "cat b")
    case None
    then have "w' = w1" "b' = b" using assms Some by (simp_all add: moveCat_def nextStepForCat_def)
    then have "w' = w1\<lparr>random_calls := random_calls w1\<rparr> \<and> b' = b" by simp
    then show ?thesis using Some by blast
  next
    case (Some c)
    let ?paths = "filter (\<lambda>n. distance w1 n = Math_min (map (distance w1) (adjacent w1 c))) (adjacent w1 c)"
    let ?w2 = "w1\<lparr>random_calls := Suc (random_calls w1)\<rparr>"
    let ?m = "js_index ?paths \<lfloor>random_source w1 (random_calls w1) * real (length ?paths)\<rfloor>"
    have ns: "nextStepForCat b w = Some (Inr ?m, ?w2)"
      using \<open>updateDistances b w = Some w1\<close> Some by (rule nextStepForCat_unfold)
    show ?thesis
    proof (cases ?m)
      case None
      then have "w' = ?w2 \<and> b' = b" using assms ns by (simp add: moveCat_def)
      then show ?thesis using \<open>updateDistances b w = Some w1\<close> by blast
    next
      case (Some m)
      then have m: "m \<in> set (adjacent w c)" using js_index_Some [of ?paths _ m] w1 by simp
      have w': "w' = ?w2" using assms ns Some by (simp add: moveCat_def Let_def split: if_splits)
      have "b' = b \<or> (distance w1 m \<noteq> \<infinity> \<and> b' = b\<lparr>cat := Some m\<rparr>)"
        using assms ns Some by (auto simp: moveCat_def Let_def split: if_splits)
      then show ?thesis using \<open>updateDistances b w = Some w1\<close> \<open>cat b = Some c\<close> m w' by blast
    qed
  qed
qed

lemma moveCat_board_ok:
  assumes "moveCat b w = Some (e, b', w')" "board_ok b w"
  shows "board_ok b' w'"
proof -
  from moveCat_result [OF assms(1)] obtain w1 rc where
    ud: "updateDistances b w = Some w1" and w': "w' = w1\<lparr>random_calls := rc\<rparr>"
    and b': "b' = b \<or> (\<exists>c m. cat b = Some c \<and> m \<in> set (adjacent w c) \<and> distance w1 m \<noteq> \<infinity> \<and> b' = b\<lparr>cat := Some m\<rparr>)"
    by blast
  from updateDistances_correct(1) [OF ud] obtain d where w1: "w1 = w\<lparr>distance := d\<rparr>" ..
  have f: "adjacent w' = adjacent w" "blocked w' = blocked w" using w' w1 by simp_all
  from b' show ?thesis
  proof
    assume "b' = b"
    then show ?thesis using assms(2) by (simp add: board_ok_def f)
  next
    assume "\<exists>c m. cat b = Some c \<and> m \<in> set (adjacent w c) \<and> distance w1 m \<noteq> \<infinity> \<and> b' = b\<lparr>cat := Some m\<rparr>"
    then obtain c m where c: "cat b = Some c" and m: "m \<in> set (adjacent w c)" "distance w1 m \<noteq> \<infinity>"
      and bb: "b' = b\<lparr>cat := Some m\<rparr>" by blast
    have "c \<in> set (cells b)" using assms(2) c by (simp add: board_ok_def)
    then have mc: "m \<in> set (cells b)" using assms(2) m(1) by (auto simp: board_ok_def)
    then have "\<not> blocked w m" using ud m(2) by (intro updateDistances_finite_unblocked)
    then show ?thesis using assms(2) mc by (simp add: board_ok_def f bb cells_def)
  qed
qed

lemma handleClick_board_ok:
  assumes "handleClick b w c = Some (e, b', w')" "board_ok b w"
  shows "board_ok b' w'"
proof (cases "cat b = Some c \<or> blocked w c")
  case True
  then show ?thesis using assms by (simp add: handleClick_def)
next
  case False
  let ?w = "w\<lparr>blocked := (blocked w)(c := True)\<rparr>"
  have "moveCat b ?w = Some (e, b', w')" using assms(1) False by (simp add: handleClick_def)
  moreover have "board_ok b ?w" using assms(2) False by (auto simp: board_ok_def)
  ultimately show ?thesis by (rule moveCat_board_ok)
qed

lemma play_board_ok:
  "play (b, w) clicks = Some (b', w') \<Longrightarrow> board_ok b w \<Longrightarrow> board_ok b' w'"
proof (induction clicks arbitrary: b w)
  case Nil
  then show ?case by simp
next
  case (Cons c clicks)
  from Cons.prems(1) obtain e b1 w1 where h: "handleClick b w c = Some (e, b1, w1)"
    and p: "play (b1, w1) clicks = Some (b', w')"
    by (auto split: option.splits)
  from h Cons.prems(2) have "board_ok b1 w1" by (rule handleClick_board_ok)
  with p show ?case by (rule Cons.IH)
qed

subsection \<open>The graph is symmetric; what a game leaves untouched\<close>

lemma hex_neighbour_iff:
  "hex_neighbour (x, y) (x', y') \<longleftrightarrow>
     (y' = y \<and> (x' = x - 1 \<or> x' = x + 1)) \<or>
     ((y' = y - 1 \<or> y' = y + 1) \<and> (if even y then x' = x - 1 \<or> x' = x else x' = x \<or> x' = x + 1))"
  unfolding hex_neighbour_def by auto

lemma hex_neighbour_sym: "hex_neighbour p q \<longleftrightarrow> hex_neighbour q p"
proof -
  obtain x y where p: "p = (x, y)" by (cases p)
  obtain x' y' where q: "q = (x', y')" by (cases q)
  show ?thesis
    unfolding p q hex_neighbour_iff by presburger
qed

lemma set_somes: "set [n. Some n \<leftarrow> xs] = {n. Some n \<in> set xs}"
proof (induction xs)
  case Nil
  then show ?case by simp
next
  case (Cons a xs)
  then show ?case by (cases a) auto
qed

lemma map_of_keys:
  "map_of (map (\<lambda>(x, y). ((x, y), (i, x, y))) ks) k =
     (if k \<in> set ks then Some (i, fst k, snd k) else None)"
  by (induction ks) (auto split: prod.splits)

lemma Board_new_grid_get:
  assumes "Board_new w h wd nb = Some (b, w')"
  shows "grid_get b k = (if k \<in> set (grid_keys h wd) then Some (ident b, fst k, snd k) else None)"
  unfolding grid_get_def Board_new_structure(4) [OF assms] Board_new_structure(1) [OF assms]
  by (rule map_of_keys)

lemma Board_new_cells:
  assumes "Board_new w h wd nb = Some (b, w')"
  shows "cells b = map (\<lambda>(x, y). (ident b, x, y)) (grid_keys h wd)"
  unfolding cells_def Board_new_structure(4) [OF assms] Board_new_structure(1) [OF assms]
  by (simp add: case_prod_beta comp_def)

lemma Board_new_distinct_cells:
  assumes "Board_new w h wd nb = Some (b, w')"
  shows "distinct (cells b)"
  unfolding Board_new_cells [OF assms]
  by (simp add: distinct_map distinct_grid_keys inj_on_def case_prod_beta prod_eq_iff)

lemma Board_new_neighbours:
  assumes bn: "Board_new w h wd nb = Some (b, w')" and A: "A \<in> set (cells b)"
  shows "B \<in> set (adjacent w' A) \<longleftrightarrow>
     B \<in> set (cells b) \<and> hex_neighbour (spot_x A, spot_y A) (spot_x B, spot_y B)"
proof -
  note gg = Board_new_grid_get [OF bn]
  have cells: "c \<in> set (cells b) \<longleftrightarrow> fst c = ident b \<and> snd c \<in> set (grid_keys h wd)" for c
    unfolding Board_new_cells [OF bn] by (cases c) (auto simp: image_iff)
  have adj: "adjacent w' A = [n. Some n \<leftarrow> cands b A]"
    using A by (simp add: Board_new_structure(7) [OF bn])
  have "B \<in> set (adjacent w' A) \<longleftrightarrow> Some B \<in> set (cands b A)"
    unfolding adj set_somes by simp
  also have "\<dots> \<longleftrightarrow> B \<in> set (cells b) \<and> hex_neighbour (spot_x A, spot_y A) (spot_x B, spot_y B)"
    unfolding cands_def Let_def js_rem_2 hex_neighbour_def prod.case cells
    by (cases B) (auto simp: gg spot_x_def spot_y_def split: if_splits)
  finally show ?thesis .
qed

lemma Board_new_symmetric:
  assumes bn: "Board_new w h wd nb = Some (b, w')" and A: "A \<in> set (cells b)" and B: "B \<in> set (cells b)"
  shows "B \<in> set (adjacent w' A) \<longleftrightarrow> A \<in> set (adjacent w' B)"
  unfolding Board_new_neighbours [OF bn A] Board_new_neighbours [OF bn B]
  using A B hex_neighbour_sym by blast

lemma heap_closed_module_loaded: "heap_closed (module_loaded rnd)"
  by (simp add: heap_closed_def module_loaded_def)

lemma heap_closed_cong:
  "boundary_adjacent w' = boundary_adjacent w \<Longrightarrow> spots w' = spots w \<Longrightarrow> adjacent w' = adjacent w
     \<Longrightarrow> heap_closed w' = heap_closed w"
  by (simp add: heap_closed_def)

lemma Board_new_heap_closed:
  assumes bn: "Board_new w h wd nb = Some (b, w')" and hc: "heap_closed w"
  shows "heap_closed w'"
proof -
  note s = Board_new_structure [OF bn]
  have 1: "set (boundary_adjacent w') \<subseteq> set (spots w')"
    using hc unfolding s(6) s(8) heap_closed_def by auto
  have 2: "set (adjacent w' c) \<subseteq> set (spots w')" if "c \<in> set (spots w')" for c
  proof (cases "c \<in> set (cells b)")
    case True
    then have "adjacent w' c = [n. Some n \<leftarrow> cands b c]" unfolding s(7) by simp
    then have "set (adjacent w' c) \<subseteq> set (cells b)" using neighbours_cells [of b c] by simp
    then show ?thesis unfolding s(8) by auto
  next
    case False
    then have "c \<in> set (spots w)" using that unfolding s(8) by simp
    then have "set (adjacent w c) \<subseteq> set (spots w)" using hc unfolding heap_closed_def by blast
    moreover have "adjacent w' c = adjacent w c" using False unfolding s(7) by simp
    ultimately show ?thesis unfolding s(8) by auto
  qed
  show ?thesis unfolding heap_closed_def using 1 2 by blast
qed

lemma moveCat_frame:
  assumes "moveCat b w = Some (e, b', w')"
  shows "\<exists>d rc. w' = w\<lparr>distance := d, random_calls := rc\<rparr>"
    and "\<exists>c. b' = b\<lparr>cat := c\<rparr>"
proof -
  from moveCat_result [OF assms] obtain w1 rc where
    ud: "updateDistances b w = Some w1" and w': "w' = w1\<lparr>random_calls := rc\<rparr>"
    and b': "b' = b \<or> (\<exists>c m. cat b = Some c \<and> m \<in> set (adjacent w c) \<and> distance w1 m \<noteq> \<infinity> \<and> b' = b\<lparr>cat := Some m\<rparr>)"
    by blast
  from updateDistances_correct(1) [OF ud] obtain d where w1: "w1 = w\<lparr>distance := d\<rparr>" ..
  show "\<exists>d rc. w' = w\<lparr>distance := d, random_calls := rc\<rparr>" using w' w1 by blast
  from b' show "\<exists>c. b' = b\<lparr>cat := c\<rparr>"
  proof
    assume "b' = b"
    then have "b' = b\<lparr>cat := cat b\<rparr>" by simp
    then show ?thesis ..
  qed blast
qed

lemma handleClick_frame:
  assumes "handleClick b w c = Some (e, b', w')"
  shows "\<exists>bl d rc. w' = w\<lparr>blocked := bl, distance := d, random_calls := rc\<rparr>"
    and "\<exists>c. b' = b\<lparr>cat := c\<rparr>"
proof -
  have "(\<exists>bl d rc. w' = w\<lparr>blocked := bl, distance := d, random_calls := rc\<rparr>) \<and> (\<exists>c. b' = b\<lparr>cat := c\<rparr>)"
  proof (cases "cat b = Some c \<or> blocked w c")
    case True
    then have "w' = w\<lparr>blocked := blocked w, distance := distance w, random_calls := random_calls w\<rparr>"
      "b' = b\<lparr>cat := cat b\<rparr>"
      using assms by (simp_all add: handleClick_def)
    then show ?thesis by blast
  next
    case False
    then have m: "moveCat b (w\<lparr>blocked := (blocked w)(c := True)\<rparr>) = Some (e, b', w')"
      using assms by (simp add: handleClick_def)
    from moveCat_frame(1) [OF m] obtain d rc where
      "w' = w\<lparr>blocked := (blocked w)(c := True), distance := d, random_calls := rc\<rparr>" by auto
    then show ?thesis using moveCat_frame(2) [OF m] by blast
  qed
  then show "\<exists>bl d rc. w' = w\<lparr>blocked := bl, distance := d, random_calls := rc\<rparr>" and "\<exists>c. b' = b\<lparr>cat := c\<rparr>"
    by blast+
qed

lemma play_frame:
  "play (b, w) clicks = Some (b', w') \<Longrightarrow>
     adjacent w' = adjacent w \<and> boundary_adjacent w' = boundary_adjacent w \<and> spots w' = spots w \<and>
     boards_built w' = boards_built w \<and> random_source w' = random_source w \<and>
     cells b' = cells b \<and> on_rim b' = on_rim b"
proof (induction clicks arbitrary: b w)
  case Nil
  then show ?case by simp
next
  case (Cons c clicks)
  from Cons.prems(1) obtain e b1 w1 where h: "handleClick b w c = Some (e, b1, w1)"
    and p: "play (b1, w1) clicks = Some (b', w')"
    by (auto split: option.splits)
  from handleClick_frame [OF h] obtain bl d rc c' where
    "w1 = w\<lparr>blocked := bl, distance := d, random_calls := rc\<rparr>" "b1 = b\<lparr>cat := c'\<rparr>" by blast
  then have "adjacent w1 = adjacent w" "boundary_adjacent w1 = boundary_adjacent w" "spots w1 = spots w"
    "boards_built w1 = boards_built w" "random_source w1 = random_source w"
    "cells b1 = cells b" "on_rim b1 = on_rim b"
    by (simp_all add: cat_update_irrelevant)
  with Cons.IH [OF p] show ?case by simp
qed

subsection \<open>Small boards, evaluated; one click\<close>

lemma row5_facts:
  "case Board_new (module_loaded (\<lambda>_. 0)) 1 5 0 of
     None \<Rightarrow> False
   | Some (b, w) \<Rightarrow>
       cat b = Some (0, 2, 0) \<and> adjacent w (0, 2, 0) = [(0, 1, 0), (0, 3, 0)] \<and>
       cells b = [(0, 1, 0), (0, 2, 0), (0, 3, 0), (0, 4, 0)] \<and>
       \<not> blocked w (0, 1, 0) \<and> random_source w (random_calls w) = 0"
  by code_simp

lemma row5_lost:
  "case Board_new (module_loaded (\<lambda>_. 0)) 1 5 0 of
     None \<Rightarrow> False
   | Some (b, w) \<Rightarrow>
       (case handleClick b w (0, 1, 0) of
          None \<Rightarrow> False
        | Some (e, b1, w1) \<Rightarrow> e = Lose \<and> cat b1 = Some (0, 3, 0) \<and> \<not> blocked w1 (0, 2, 0))"
  by code_simp

lemma row5_play:
  "case Board_new (module_loaded (\<lambda>_. 0)) 1 5 0 of
     None \<Rightarrow> False
   | Some (b, w) \<Rightarrow>
       (case play (b, w) [(0, 1, 0), (0, 2, 0)] of
          None \<Rightarrow> False
        | Some (b', w') \<Rightarrow> cat b' = Some (0, 4, 0))"
  by code_simp

lemma square3_facts:
  "case Board_new (module_loaded (\<lambda>_. 0)) 3 3 0 of
     None \<Rightarrow> False
   | Some (b, w) \<Rightarrow>
       (0, 1, 0) \<in> set (cells b) \<and> (0, 1, 1) \<in> set (cells b) \<and>
       (0, 2, 0) \<in> set (boundary_adjacent w) \<and> \<not> blocked w (0, 2, 0) \<and> \<not> blocked w (0, 1, 0) \<and>
       (0, 1, 0) \<in> set (adjacent w (0, 1, 1))"
  by code_simp

lemma Board_new_total:
  assumes "nb \<le> 0"
  shows "\<exists>b w'. Board_new w h wd nb = Some (b, w')"
proof -
  have "setInitialBlocks b1 nb w4 = Some w4" for b1 w4
    unfolding setInitialBlocks_def using assms by (subst setInitialBlocks_loop.simps) simp
  then show ?thesis
    unfolding Board_new_def Let_def by (simp split: prod.splits)
qed

lemma Board_new_cell_iff:
  assumes "Board_new w h wd nb = Some (b, w')"
  shows "c \<in> set (cells b) \<longleftrightarrow> fst c = ident b \<and> snd c \<in> set (grid_keys h wd)"
  unfolding Board_new_cells [OF assms] by (cases c) (auto simp: image_iff)

lemma handleClick_ignored:
  "cat b = Some c \<or> blocked w c \<Longrightarrow> handleClick b w c = Some (Continue, b, w)"
  by (simp add: handleClick_def)

lemma handleClick_blocks:
  assumes "cat b \<noteq> Some c" "\<not> blocked w c"
  shows "handleClick b w c = moveCat b (w\<lparr>blocked := (blocked w)(c := True)\<rparr>)"
    and "handleClick b w c = Some (e, b', w') \<Longrightarrow> blocked w' = (blocked w)(c := True)"
proof -
  show 1: "handleClick b w c = moveCat b (w\<lparr>blocked := (blocked w)(c := True)\<rparr>)"
    using assms by (simp add: handleClick_def)
  assume "handleClick b w c = Some (e, b', w')"
  then have "moveCat b (w\<lparr>blocked := (blocked w)(c := True)\<rparr>) = Some (e, b', w')" using 1 by simp
  from moveCat_frame(1) [OF this] show "blocked w' = (blocked w)(c := True)" by auto
qed

lemma moveCat_total:
  assumes "heap_closed w"
  shows "moveCat b w \<noteq> None"
proof -
  from updateDistances_total [OF assms] obtain w1 where "updateDistances b w = Some w1" ..
  then show ?thesis
    by (auto simp: moveCat_def nextStepForCat_def Let_def Math_random_def
        split: option.splits prod.splits sum.splits)
qed

lemma handleClick_total:
  assumes "heap_closed w"
  shows "handleClick b w c \<noteq> None"
proof (cases "cat b = Some c \<or> blocked w c")
  case True
  then show ?thesis by (simp add: handleClick_def)
next
  case False
  have "heap_closed (w\<lparr>blocked := (blocked w)(c := True)\<rparr>)"
    using assms by (simp add: heap_closed_def)
  then have "moveCat b (w\<lparr>blocked := (blocked w)(c := True)\<rparr>) \<noteq> None" by (rule moveCat_total)
  then show ?thesis using False by (simp add: handleClick_def)
qed

lemma moveCat_unfold:
  assumes "nextStepForCat b w = Some (Inr (Some m), w')"
  shows "moveCat b w =
     Some (if distance w' m = \<infinity> then (Win, b, w')
           else if distance w' m = 1 then (Lose, b\<lparr>cat := Some m\<rparr>, w')
           else (Continue, b\<lparr>cat := Some m\<rparr>, w'))"
  using assms by (simp add: moveCat_def Let_def)

subsection \<open>The boundary's list; the cat has a neighbour\<close>

lemma boundary_made_earlier_module_loaded: "boundary_made_earlier (module_loaded rnd)"
  by (simp add: boundary_made_earlier_def module_loaded_def)

lemma Board_new_boundary_made_earlier:
  assumes bn: "Board_new w h wd nb = Some (b, w')" and "boundary_made_earlier w"
  shows "boundary_made_earlier w'"
proof -
  note s = Board_new_structure [OF bn]
  have "fst c < Suc (boards_built w)" if "c \<in> set (boundary_adjacent w')" for c
  proof (cases "c \<in> set (boundary_adjacent w)")
    case True
    then have "fst c < boards_built w" using assms(2) by (simp add: boundary_made_earlier_def)
    then show ?thesis by simp
  next
    case False
    then have "c \<in> set (cells b)" using that unfolding s(6) by auto
    then have "fst c = boards_built w" using Board_new_cell_iff [OF bn] s(1) by simp
    then show ?thesis by simp
  qed
  then show ?thesis unfolding boundary_made_earlier_def s(9) by blast
qed

lemma play_boundary_made_earlier:
  "play (b, w) clicks = Some (b', w') \<Longrightarrow> boundary_made_earlier w \<Longrightarrow> boundary_made_earlier w'"
  using play_frame [of b w clicks b' w'] by (simp add: boundary_made_earlier_def)

lemma play_heap_closed:
  assumes "play (b, w) clicks = Some (b', w')" "heap_closed w"
  shows "heap_closed w'"
proof -
  from play_frame [OF assms(1)] have "heap_closed w' = heap_closed w"
    by (intro heap_closed_cong) simp_all
  then show ?thesis using assms(2) by simp
qed

lemma count_list_filter_distinct:
  "distinct xs \<Longrightarrow> count_list (filter P xs) c = (if c \<in> set xs \<and> P c then 1 else 0)"
  by (induction xs) auto

lemma count_list_absent: "c \<notin> set xs \<Longrightarrow> count_list xs c = 0"
  by (induction xs) auto

lemma Board_new_rim_once:
  assumes made: "boundary_made_earlier w0" and bn: "Board_new w0 h wd nb = Some (b, w)"
    and c: "c \<in> set (cells b)"
  shows "count_list (boundary_adjacent w) c = (if on_rim b c then 1 else 0)"
proof -
  note s = Board_new_structure [OF bn]
  have "fst c = boards_built w0" using c Board_new_cell_iff [OF bn] s(1) by simp
  then have "c \<notin> set (boundary_adjacent w0)"
    using made unfolding boundary_made_earlier_def by auto
  then have "count_list (boundary_adjacent w0) c = 0" by (rule count_list_absent)
  moreover have "count_list (filter (on_rim b) (cells b)) c = (if on_rim b c then 1 else 0)"
    using c by (simp add: count_list_filter_distinct Board_new_distinct_cells [OF bn])
  ultimately show ?thesis unfolding s(6) by simp
qed

lemma floor_fraction_bounds:
  fixes n :: int and r :: real
  assumes "0 \<le> r" "r < 1" "0 < n"
  shows "\<lfloor>real_of_int n / 2.5 + r * (real_of_int n / 5)\<rfloor> < n"
    and "0 \<le> \<lfloor>real_of_int n / 2.5 + r * (real_of_int n / 5)\<rfloor>"
    and "3 \<le> n \<Longrightarrow> 1 \<le> \<lfloor>real_of_int n / 2.5 + r * (real_of_int n / 5)\<rfloor>"
proof -
  let ?v = "real_of_int n / 2.5 + r * (real_of_int n / 5)"
  have n: "0 < real_of_int n" using assms(3) by simp
  have "r * (real_of_int n / 5) < 1 * (real_of_int n / 5)"
    using assms(2) n by (intro mult_strict_right_mono) simp_all
  moreover have "real_of_int n / 2.5 + 1 * (real_of_int n / 5) \<le> real_of_int n" using n by simp
  ultimately have "?v < real_of_int n" by linarith
  then show "\<lfloor>?v\<rfloor> < n" by (subst floor_less_iff)
  have r0: "0 \<le> r * (real_of_int n / 5)" using assms(1) n by simp
  then have "0 \<le> ?v" using n by simp
  then show "0 \<le> \<lfloor>?v\<rfloor>" by simp
  assume "3 \<le> n"
  then have "3 \<le> real_of_int n" by simp
  then have "1 \<le> real_of_int n / 2.5" by simp
  then have "1 \<le> ?v" using r0 by simp
  then show "1 \<le> \<lfloor>?v\<rfloor>" by (subst le_floor_iff) simp
qed

lemma Board_new_cat_placed:
  assumes bn: "Board_new w h wd nb = Some (b, w')" and size: "3 \<le> wd" "1 \<le> h"
    and rnd: "\<forall>n. 0 \<le> random_source w n \<and> random_source w n < 1"
  shows "\<exists>c. cat b = Some c"
proof -
  define w1 where "w1 = console_assert (js_rem h 2 \<noteq> 0 \<and> js_rem wd 2 \<noteq> 0) ''Height & width must be odd'' w"
  define b0 where "b0 = \<lparr>ident = boards_built w1, height = h, width = wd,
                grid = map (\<lambda>(x, y). ((x, y), (boards_built w1, x, y))) (grid_keys h wd), cat = None\<rparr>"
  define w2 where "w2 = foldl Spot_new (w1\<lparr>boards_built := Suc (boards_built w1)\<rparr>) (cells b0)"
  define w3 where "w3 = createGraph b0 w2"
  obtain b1 w4 where sc: "setInitialCat b0 w3 = (b1, w4)" by (cases "setInitialCat b0 w3")
  have bn': "Board_new w h wd nb = (case setInitialBlocks b1 nb w4 of None \<Rightarrow> None | Some w5 \<Rightarrow> Some (b1, w5))"
    unfolding Board_new_def Let_def w1_def [symmetric] b0_def [symmetric] w2_def [symmetric] w3_def [symmetric] sc
    by simp
  from bn bn' have b: "b = b1" by (auto split: option.splits)
  have rs: "random_source w3 = random_source w"
    by (simp add: w3_def createGraph_def createGraph_others w2_def foldl_Spot_new_others w1_def
        console_assert_def)
  define r1 where "r1 = random_source w3 (random_calls w3)"
  define r2 where "r2 = random_source w3 (Suc (random_calls w3))"
  define x where "x = \<lfloor>real_of_int wd / 2.5 + r1 * (real_of_int wd / 5)\<rfloor>"
  define y where "y = \<lfloor>real_of_int h / 2.5 + r2 * (real_of_int h / 5)\<rfloor>"
  have r: "0 \<le> r1" "r1 < 1" "0 \<le> r2" "r2 < 1" using rnd by (simp_all add: r1_def r2_def rs)
  have dims: "width b0 = wd" "height b0 = h" by (simp_all add: b0_def)
  from sc have "b1 = b0\<lparr>cat := grid_get b0 (x, y)\<rparr>"
    by (auto simp: setInitialCat_def Math_random_def Let_def x_def y_def r1_def r2_def dims)
  then have catb: "cat b = grid_get b0 (x, y)" by (simp add: b)
  have "x < wd" "1 \<le> x" "y < h" "0 \<le> y"
    unfolding x_def y_def using floor_fraction_bounds [of r1 wd] floor_fraction_bounds [of r2 h] r size
    by simp_all
  then have "(x, y) \<in> set (grid_keys h wd)" by (simp add: set_grid_keys)
  then have "grid_get b0 (x, y) = Some (boards_built w1, x, y)"
    by (simp add: grid_get_def b0_def map_of_keys)
  then show ?thesis using catb by simp
qed

lemma Board_new_neighbour_exists:
  assumes bn: "Board_new w h wd nb = Some (b, w')" and size: "3 \<le> wd" and A: "A \<in> set (cells b)"
  shows "adjacent w' A \<noteq> []"
proof -
  obtain i x y where Axy: "A = (i, x, y)" by (cases A)
  from A have i: "i = ident b" and k: "(x, y) \<in> set (grid_keys h wd)"
    using Board_new_cell_iff [OF bn] by (simp_all add: Axy)
  define x' where "x' = (if x + 1 < wd then x + 1 else x - 1)"
  have "(x', y) \<in> set (grid_keys h wd)"
    using k size by (auto simp: set_grid_keys x'_def)
  then have B: "(i, x', y) \<in> set (cells b)" using Board_new_cell_iff [OF bn] i by simp
  have "hex_neighbour (x, y) (x', y)" by (simp add: hex_neighbour_iff x'_def)
  then have "(i, x', y) \<in> set (adjacent w' A)"
    using Board_new_neighbours [OF bn A, of "(i, x', y)"] B by (simp add: Axy spot_x_def spot_y_def)
  then show ?thesis by auto
qed

lemma handleClick_cat_placed:
  assumes "handleClick b w c = Some (e, b', w')" "cat b \<noteq> None"
  shows "cat b' \<noteq> None"
proof (cases "cat b = Some c \<or> blocked w c")
  case True
  then show ?thesis using assms by (simp add: handleClick_def)
next
  case False
  then have "moveCat b (w\<lparr>blocked := (blocked w)(c := True)\<rparr>) = Some (e, b', w')"
    using assms(1) by (simp add: handleClick_def)
  from moveCat_result [OF this] show ?thesis using assms(2) by auto
qed

lemma play_cat_placed:
  "play (b, w) clicks = Some (b', w') \<Longrightarrow> cat b \<noteq> None \<Longrightarrow> cat b' \<noteq> None"
proof (induction clicks arbitrary: b w)
  case Nil
  then show ?case by simp
next
  case (Cons c clicks)
  from Cons.prems(1) obtain e b1 w1 where h: "handleClick b w c = Some (e, b1, w1)"
    and p: "play (b1, w1) clicks = Some (b', w')"
    by (auto split: option.splits)
  from h Cons.prems(2) have "cat b1 \<noteq> None" by (rule handleClick_cat_placed)
  with p show ?case by (rule Cons.IH)
qed

text \<open>On a board at least three spots wide, built and played with random numbers in [0, 1),
  the cat always sits on a spot that has a neighbour.\<close>

lemma cat_has_neighbour:
  assumes bn: "Board_new w0 h wd nb = Some (b, w)" and size: "3 \<le> wd" "1 \<le> h"
    and rnd: "\<forall>n. 0 \<le> random_source w0 n \<and> random_source w0 n < 1"
    and p: "play (b, w) clicks = Some (b', w')"
  shows "\<exists>c. cat b' = Some c \<and> c \<in> set (cells b') \<and> adjacent w' c \<noteq> []"
proof -
  from Board_new_cat_placed [OF bn size rnd] have "cat b \<noteq> None" by auto
  with p have "cat b' \<noteq> None" by (rule play_cat_placed)
  then obtain c where c: "cat b' = Some c" by auto
  have "board_ok b w" using bn by (rule Board_new_board_ok)
  with p have "board_ok b' w'" by (rule play_board_ok)
  then have cc: "c \<in> set (cells b')" using c by (simp add: board_ok_def)
  from play_frame [OF p] have f: "adjacent w' = adjacent w" "cells b' = cells b" by simp_all
  have "adjacent w c \<noteq> []" using bn size(1) cc [unfolded f] by (rule Board_new_neighbour_exists)
  then show ?thesis using c cc f by simp
qed

text \<open>So no click on such a board ends in a \<^verbatim>\<open>TypeError\<close>.\<close>

lemma click_never_throws:
  assumes hc: "heap_closed w0" and bn: "Board_new w0 h wd nb = Some (b, w)" and size: "3 \<le> wd" "1 \<le> h"
    and rnd: "\<forall>n. 0 \<le> random_source w0 n \<and> random_source w0 n < 1"
    and p: "play (b, w) clicks = Some (b', w')"
  shows "\<exists>e b'' w''. handleClick b' w' c = Some (e, b'', w'') \<and> e \<noteq> TypeError"
proof (cases "cat b' = Some c \<or> blocked w' c")
  case True
  then show ?thesis by (simp add: handleClick_def)
next
  case False
  let ?w = "w'\<lparr>blocked := (blocked w')(c := True)\<rparr>"
  from cat_has_neighbour [OF bn size rnd p] obtain cc where
    cc: "cat b' = Some cc" "adjacent w' cc \<noteq> []" by blast
  have "heap_closed w" using bn hc by (rule Board_new_heap_closed)
  with p have "heap_closed w'" by (rule play_heap_closed)
  then have hc': "heap_closed ?w" by (simp add: heap_closed_def)
  from updateDistances_total [OF hc'] obtain w1 where ud: "updateDistances b' ?w = Some w1" ..
  have rs: "random_source ?w = random_source w0"
    using play_frame [OF p] Board_new_structure(11) [OF bn] by simp
  have "\<exists>m. nextStepForCat b' ?w = Some (Inr (Some m), w1\<lparr>random_calls := Suc (random_calls ?w)\<rparr>) \<and>
           m \<in> set (adjacent ?w cc) \<and> (\<forall>n\<in>set (adjacent ?w cc). distance w1 m \<le> distance w1 n)"
    using ud cc(1) by (rule nextStepForCat_choice) (use cc(2) rnd rs in simp_all)
  then obtain m where "nextStepForCat b' ?w = Some (Inr (Some m), w1\<lparr>random_calls := Suc (random_calls ?w)\<rparr>)"
    by blast
  from moveCat_unfold [OF this] have "\<exists>e b'' w''. moveCat b' ?w = Some (e, b'', w'') \<and> e \<noteq> TypeError"
    by (simp split: if_splits)
  then show ?thesis using False by (simp add: handleClick_def)
qed

section \<open>The properties\<close>

subsection \<open>The distance engine\<close>

text \<open>
  C1. Whatever the blocked flags are, one run of \<^verbatim>\<open>updateDistances\<close> ends, and afterwards
  every Spot that a path of unblocked Spots joins to the boundary object carries the least
  number of hops of such a path, while every Spot of the board that is blocked or that no
  such path reaches carries \<^verbatim>\<open>Infinity\<close>. The heap may hold the Spots of any number of boards;
  all that is asked of it is that adjacency lists hold Spots that were made.
\<close>

theorem updateDistances_shortest_paths:
  assumes "heap_closed w"
  shows "\<exists>w'. updateDistances b w = Some w' \<and>
           (\<forall>c k. hops w k (Spot c) \<and> (\<forall>j. hops w j (Spot c) \<longrightarrow> k \<le> j) \<longrightarrow> distance w' c = enat k) \<and>
           (\<forall>c\<in>set (cells b). blocked w c \<or> (\<forall>k. \<not> hops w k (Spot c)) \<longrightarrow> distance w' c = \<infinity>)"
proof -
  from updateDistances_total [OF assms] obtain w' where w': "updateDistances b w = Some w'" ..
  have "distance w' c = enat k" if "hops w k (Spot c) \<and> (\<forall>j. hops w j (Spot c) \<longrightarrow> k \<le> j)" for c k
    using updateDistances_correct(2) [OF w', of k c] that by blast
  moreover have "distance w' c = \<infinity>" if "c \<in> set (cells b)" "blocked w c \<or> (\<forall>k. \<not> hops w k (Spot c))" for c
  proof -
    have "\<not> hops w k (Spot c)" for k using that(2) hops_unblocked by blast
    then show ?thesis using updateDistances_correct(3) [OF w' that(1)] by blast
  qed
  ultimately show ?thesis using w' by blast
qed

text \<open>On the 3 by 3 board with the spot (1, 0) blocked: the rim spot (2, 0) is one hop from
  the boundary object and the blocked spot stays at \<^verbatim>\<open>Infinity\<close>.\<close>

theorem updateDistances_shortest_paths_witness:
  "\<exists>b w w'. Board_new (module_loaded (\<lambda>_. 0)) 3 3 0 = Some (b, w) \<and>
      updateDistances b (w\<lparr>blocked := (blocked w)((0, 1, 0) := True)\<rparr>) = Some w' \<and>
      distance w' (0, 2, 0) = 1 \<and> distance w' (0, 1, 0) = \<infinity>"
proof -
  from square3_facts obtain b w where bn: "Board_new (module_loaded (\<lambda>_. 0)) 3 3 0 = Some (b, w)"
    and f: "(0, 1, 0) \<in> set (cells b)" "(0, 2, 0) \<in> set (boundary_adjacent w)" "\<not> blocked w (0, 2, 0)"
    by (auto split: option.splits)
  let ?w = "w\<lparr>blocked := (blocked w)((0, 1, 0) := True)\<rparr>"
  have "heap_closed w" using bn heap_closed_module_loaded by (rule Board_new_heap_closed)
  then have hc: "heap_closed ?w" by (simp add: heap_closed_def)
  from updateDistances_shortest_paths [OF hc, of b] obtain w' where
    ud: "updateDistances b ?w = Some w'"
    and near: "\<forall>c k. hops ?w k (Spot c) \<and> (\<forall>j. hops ?w j (Spot c) \<longrightarrow> k \<le> j) \<longrightarrow> distance w' c = enat k"
    and far: "\<forall>c\<in>set (cells b). blocked ?w c \<or> (\<forall>k. \<not> hops ?w k (Spot c)) \<longrightarrow> distance w' c = \<infinity>"
    by blast
  have "hops ?w (Suc 0) (Spot (0, 2, 0))"
    using f by (intro hops_step [OF hops_start]) simp_all
  moreover have "Suc 0 \<le> j" if "hops ?w j (Spot (0, 2, 0))" for j
    using that hops_zero [of ?w "Spot (0, 2, 0)"] by (cases j) auto
  ultimately have "distance w' (0, 2, 0) = enat (Suc 0)" using near by blast
  then have 1: "distance w' (0, 2, 0) = 1" by (simp add: one_enat_def)
  have 2: "distance w' (0, 1, 0) = \<infinity>" using far f(1) by simp
  show ?thesis using bn ud 1 2 by blast
qed

subsection \<open>The move policy\<close>

text \<open>
  C2 as it is worded does not hold. On the 1 by 3 board the cat sits on (1, 0) and has the single neighbour (2, 0). Once the
  player has blocked that spot, every neighbour of the cat is at \<^verbatim>\<open>Infinity\<close>, the filter keeps
  them all, and \<^verbatim>\<open>nextStepForCat\<close> returns the blocked spot.
\<close>

theorem nextStepForCat_blocked_counterexample:
  "case Board_new (module_loaded (\<lambda>_. 0)) 1 3 0 of
     None \<Rightarrow> False
   | Some (b, w) \<Rightarrow>
       cat b = Some (0, 1, 0) \<and> adjacent w (0, 1, 0) = [(0, 2, 0)] \<and>
       (case nextStepForCat b (w\<lparr>blocked := (blocked w)((0, 2, 0) := True)\<rparr>) of
          Some (Inr (Some m), w') \<Rightarrow> m = (0, 2, 0) \<and> blocked w' m
        | _ \<Rightarrow> False)"
  by code_simp

text \<open>
  C2, amended. When the cat has a neighbour (and its neighbours are spots of the board),
  \<^verbatim>\<open>nextStepForCat\<close> returns one of the cat's neighbours, one whose fresh distance is least among
  them; the spot returned is unblocked whenever its distance is finite. (When every neighbour
  is at \<^verbatim>\<open>Infinity\<close> the spot returned may be a blocked one; \<^verbatim>\<open>moveCat\<close> then announces the
  win and leaves the cat where it is.)
\<close>

theorem nextStepForCat_nearest_neighbour:
  assumes "heap_closed w" and "cat b = Some c" and "adjacent w c \<noteq> []"
    and "set (adjacent w c) \<subseteq> set (cells b)"
    and "0 \<le> random_source w (random_calls w)" and "random_source w (random_calls w) < 1"
  shows "\<exists>m w'. nextStepForCat b w = Some (Inr (Some m), w') \<and> m \<in> set (adjacent w c) \<and>
           (\<forall>n\<in>set (adjacent w c). distance w' m \<le> distance w' n) \<and>
           (distance w' m \<noteq> \<infinity> \<longrightarrow> \<not> blocked w' m)"
proof -
  from updateDistances_total [OF assms(1)] obtain w1 where ud: "updateDistances b w = Some w1" ..
  from updateDistances_correct(1) [OF ud] obtain d where w1: "w1 = w\<lparr>distance := d\<rparr>" ..
  let ?w' = "w1\<lparr>random_calls := Suc (random_calls w)\<rparr>"
  from nextStepForCat_choice [OF ud assms(2,3,5,6)] obtain m where
    m: "nextStepForCat b w = Some (Inr (Some m), ?w')" "m \<in> set (adjacent w c)"
    "\<forall>n\<in>set (adjacent w c). distance w1 m \<le> distance w1 n" by blast
  have "\<not> blocked ?w' m" if "distance ?w' m \<noteq> \<infinity>"
  proof -
    have "m \<in> set (cells b)" using m(2) assms(4) by blast
    moreover have "distance w1 m \<noteq> \<infinity>" using that by simp
    ultimately have "\<not> blocked w m" using ud by (intro updateDistances_finite_unblocked)
    then show ?thesis using w1 by simp
  qed
  then show ?thesis using m by (intro exI [of _ m] exI [of _ ?w']) simp
qed

text \<open>On the fresh 1 by 5 board the cat sits on (2, 0) between (1, 0) and (3, 0).\<close>

theorem nextStepForCat_nearest_neighbour_witness:
  "\<exists>b w m w'. Board_new (module_loaded (\<lambda>_. 0)) 1 5 0 = Some (b, w) \<and>
      nextStepForCat b w = Some (Inr (Some m), w') \<and> m \<in> set (adjacent w (0, 2, 0)) \<and>
      distance w' m \<le> distance w' (0, 1, 0) \<and> distance w' m \<le> distance w' (0, 3, 0)"
proof -
  from row5_facts obtain b w where bn: "Board_new (module_loaded (\<lambda>_. 0)) 1 5 0 = Some (b, w)"
    and f: "cat b = Some (0, 2, 0)" "adjacent w (0, 2, 0) = [(0, 1, 0), (0, 3, 0)]"
      "cells b = [(0, 1, 0), (0, 2, 0), (0, 3, 0), (0, 4, 0)]" "random_source w (random_calls w) = 0"
    by (auto split: option.splits)
  have hc: "heap_closed w" using bn heap_closed_module_loaded by (rule Board_new_heap_closed)
  have "\<exists>m w'. nextStepForCat b w = Some (Inr (Some m), w') \<and> m \<in> set (adjacent w (0, 2, 0)) \<and>
           (\<forall>n\<in>set (adjacent w (0, 2, 0)). distance w' m \<le> distance w' n) \<and>
           (distance w' m \<noteq> \<infinity> \<longrightarrow> \<not> blocked w' m)"
    using f by (intro nextStepForCat_nearest_neighbour [OF hc f(1)]) simp_all
  then show ?thesis using bn f(2) by auto
qed

subsection \<open>The cat's turn\<close>




subsection \<open>The assertion of the constructor\<close>

text \<open>
  C4. The constructor asserts that height and width are odd with \<^verbatim>\<open>console.assert\<close>, which
  writes its message and returns. With height 2 and width 2 the message is written and the
  constructor goes on: two Spots are made, both are pushed onto the boundary's list, and the
  cat is looked up at (0, 0), where the grid has no Spot, so \<^verbatim>\<open>this.cat\<close> is \<^verbatim>\<open>undefined\<close>.
\<close>

theorem Board_new_even_size_goes_on:
  "case Board_new (module_loaded (\<lambda>_. 0)) 2 2 0 of
     None \<Rightarrow> False
   | Some (b, w) \<Rightarrow>
       cells b = [(0, 1, 0), (0, 1, 1)] \<and> boundary_adjacent w = [(0, 1, 0), (0, 1, 1)] \<and>
       cat b = None \<and> console w = [''Height & width must be odd'']"
  by code_simp

subsection \<open>The boundary's list\<close>

text \<open>
  C5 as it is worded does not hold. After a second 3 by 3 board is constructed (what the
  reset button does), the boundary's list still holds the rim spot
  (1, 0) of the first board, which is no spot of the second board's grid; the list has the six
  rim spots of each board.
\<close>

theorem boundary_list_counterexample:
  "\<exists>b1 w1 b2 w2. Board_new (module_loaded (\<lambda>_. 0)) 3 3 0 = Some (b1, w1) \<and>
      Board_new w1 3 3 0 = Some (b2, w2) \<and>
      (0, 1, 0) \<in> set (boundary_adjacent w2) \<and> (0, 1, 0) \<notin> set (cells b2) \<and>
      length (boundary_adjacent w2) = 12"
proof -
  from square3_facts obtain b1 w1 where bn1: "Board_new (module_loaded (\<lambda>_. 0)) 3 3 0 = Some (b1, w1)"
    and f: "(0, 1, 0) \<in> set (cells b1)"
    by (auto split: option.splits)
  from Board_new_total [of 0 w1 3 3] obtain b2 w2 where bn2: "Board_new w1 3 3 0 = Some (b2, w2)"
    by auto
  note s1 = Board_new_structure [OF bn1] and s2 = Board_new_structure [OF bn2]
  have keys: "grid_keys 3 3 = [(1, 0), (2, 0), (0, 1), (1, 1), (2, 1), (1, 2), (2, 2)]"
    by code_simp
  have c1: "cells b1 = [(0, 1, 0), (0, 2, 0), (0, 0, 1), (0, 1, 1), (0, 2, 1), (0, 1, 2), (0, 2, 2)]"
    unfolding Board_new_cells [OF bn1] s1(1) keys by (simp add: module_loaded_def)
  have c2: "cells b2 = [(1, 1, 0), (1, 2, 0), (1, 0, 1), (1, 1, 1), (1, 2, 1), (1, 1, 2), (1, 2, 2)]"
    unfolding Board_new_cells [OF bn2] s2(1) s1(9) keys by (simp add: module_loaded_def)
  have list: "boundary_adjacent w2 = filter (on_rim b1) (cells b1) @ filter (on_rim b2) (cells b2)"
    unfolding s2(6) s1(6) by (simp add: module_loaded_def)
  have "(0, 1, 0) \<in> set (boundary_adjacent w2)"
    unfolding list c1 by (simp add: on_rim_def spot_x_def spot_y_def)
  moreover have "(0, 1, 0) \<notin> set (cells b2)" unfolding c2 by simp
  moreover have "length (boundary_adjacent w2) = 12"
    unfolding list c1 c2 by (simp add: on_rim_def spot_x_def spot_y_def s1(2,3) s2(2,3))
  ultimately show ?thesis using bn1 bn2 by blast
qed

text \<open>
  C5, amended. After a board is constructed, every spot of its grid with x = 0, y = 0,
  x = width - 1 or y = height - 1 is on the boundary's list exactly once, and no other spot of
  that grid is on it. When the list was empty before the construction (the first board after
  the script is loaded), the list holds these rim spots and nothing else.
\<close>

theorem rim_spots_once_on_boundary:
  assumes "boundary_made_earlier w0" and "Board_new w0 h wd nb = Some (b, w)"
  shows "(\<forall>c\<in>set (cells b). count_list (boundary_adjacent w) c = (if on_rim b c then 1 else 0)) \<and>
         (boundary_adjacent w0 = [] \<longrightarrow> set (boundary_adjacent w) = {c \<in> set (cells b). on_rim b c})"
proof -
  have "count_list (boundary_adjacent w) c = (if on_rim b c then 1 else 0)" if "c \<in> set (cells b)" for c
    using assms that by (rule Board_new_rim_once)
  moreover have "set (boundary_adjacent w) = {c \<in> set (cells b). on_rim b c}" if "boundary_adjacent w0 = []"
    unfolding Board_new_structure(6) [OF assms(2)] using that by auto
  ultimately show ?thesis by blast
qed

theorem rim_spots_once_on_boundary_witness:
  "\<exists>b w. Board_new (module_loaded (\<lambda>_. 0)) 3 3 0 = Some (b, w) \<and>
      count_list (boundary_adjacent w) (0, 1, 0) = 1 \<and> count_list (boundary_adjacent w) (0, 1, 1) = 0 \<and>
      set (boundary_adjacent w) = {c \<in> set (cells b). on_rim b c}"
proof -
  from square3_facts obtain b w where bn: "Board_new (module_loaded (\<lambda>_. 0)) 3 3 0 = Some (b, w)"
    and f: "(0, 1, 0) \<in> set (cells b)" "(0, 1, 1) \<in> set (cells b)"
    by (auto split: option.splits)
  note s = Board_new_structure [OF bn]
  have rim: "on_rim b (0, 1, 0)" "\<not> on_rim b (0, 1, 1)"
    by (simp_all add: on_rim_def spot_x_def spot_y_def s(2,3))
  have e: "boundary_adjacent (module_loaded (\<lambda>_. 0)) = []" by (simp add: module_loaded_def)
  from rim_spots_once_on_boundary [OF boundary_made_earlier_module_loaded bn] f rim e bn
  show ?thesis by auto
qed

subsection \<open>The graph\<close>

text \<open>
  C6. On a constructed board, and in every state a game on it reaches, the adjacency lists of
  the board's spots are symmetric: B is in the list of A exactly when A is in the list of B.
\<close>

theorem adjacency_symmetric:
  assumes "Board_new w0 h wd nb = Some (b, w)" and "play (b, w) clicks = Some (b', w')"
  shows "\<forall>A\<in>set (cells b'). \<forall>B\<in>set (cells b'). B \<in> set (adjacent w' A) \<longleftrightarrow> A \<in> set (adjacent w' B)"
proof -
  from play_frame [OF assms(2)] have f: "adjacent w' = adjacent w" "cells b' = cells b" by simp_all
  show ?thesis unfolding f using Board_new_symmetric [OF assms(1)] by blast
qed

theorem adjacency_symmetric_witness:
  "\<exists>b w. Board_new (module_loaded (\<lambda>_. 0)) 3 3 0 = Some (b, w) \<and>
      (0, 1, 0) \<in> set (adjacent w (0, 1, 1)) \<and> (0, 1, 1) \<in> set (adjacent w (0, 1, 0))"
proof -
  from square3_facts obtain b w where bn: "Board_new (module_loaded (\<lambda>_. 0)) 3 3 0 = Some (b, w)"
    and f: "(0, 1, 0) \<in> set (cells b)" "(0, 1, 1) \<in> set (cells b)" "(0, 1, 0) \<in> set (adjacent w (0, 1, 1))"
    by (auto split: option.splits)
  have p: "play (b, w) [] = Some (b, w)" by simp
  from adjacency_symmetric [OF bn p] f have "(0, 1, 1) \<in> set (adjacent w (0, 1, 0))" by blast
  then show ?thesis using bn f(3) by blast
qed

subsection \<open>The cat's spot is never blocked\<close>

text \<open>
  C7. In every state that a sequence of clicks reaches from a freshly constructed board, the
  spot the cat is on is a spot of the board and is not blocked: the initial blocks skip the
  cat's spot, a click on the cat's spot is ignored, and the cat only moves onto a spot with a
  finite distance, which is an unblocked one.
\<close>

theorem cat_spot_never_blocked:
  assumes "Board_new w0 h wd nb = Some (b, w)" and "play (b, w) clicks = Some (b', w')"
  shows "\<forall>c. cat b' = Some c \<longrightarrow> c \<in> set (cells b') \<and> \<not> blocked w' c"
proof -
  have "board_ok b w" using assms(1) by (rule Board_new_board_ok)
  with assms(2) have "board_ok b' w'" by (rule play_board_ok)
  then show ?thesis unfolding board_ok_def by blast
qed

theorem cat_spot_never_blocked_witness:
  "\<exists>b w b' w'. Board_new (module_loaded (\<lambda>_. 0)) 1 5 0 = Some (b, w) \<and>
      play (b, w) [(0, 1, 0), (0, 2, 0)] = Some (b', w') \<and>
      cat b' = Some (0, 4, 0) \<and> (0, 4, 0) \<in> set (cells b') \<and> \<not> blocked w' (0, 4, 0)"
proof -
  from row5_play obtain b w b' w' where bn: "Board_new (module_loaded (\<lambda>_. 0)) 1 5 0 = Some (b, w)"
    and p: "play (b, w) [(0, 1, 0), (0, 2, 0)] = Some (b', w')" and c: "cat b' = Some (0, 4, 0)"
    by (auto split: option.splits simp del: play.simps)
  from cat_spot_never_blocked [OF bn p] c bn p show ?thesis by blast
qed

subsection \<open>After the end of a game\<close>

text \<open>
  C8 as it is worded does not hold. On the 1 by 5 board a click on (1, 0) sends the cat to (3, 0), one hop from the boundary
  object, and the loss is announced. The next click, on (2, 0), is handled like any other:
  the spot is blocked and the cat moves on to (4, 0).
\<close>

theorem click_after_game_end_counterexample:
  "case Board_new (module_loaded (\<lambda>_. 0)) 1 5 0 of
     None \<Rightarrow> False
   | Some (b, w) \<Rightarrow>
       (case handleClick b w (0, 1, 0) of
          None \<Rightarrow> False
        | Some (e, b1, w1) \<Rightarrow>
            e = Lose \<and> cat b1 = Some (0, 3, 0) \<and> \<not> blocked w1 (0, 2, 0) \<and>
            (case handleClick b1 w1 (0, 2, 0) of
               None \<Rightarrow> False
             | Some (e2, b2, w2) \<Rightarrow> blocked w2 (0, 2, 0) \<and> cat b2 = Some (0, 4, 0)))"
  by code_simp

text \<open>
  C8, amended. The script keeps no record that a game has ended (\<^verbatim>\<open>gameEnd\<close> only announces),
  so in the state a click leaves behind when it ends in a win or a loss, clicks are handled as
  before: a click on the cat's spot or on a blocked spot changes nothing, and a click on any
  other spot blocks that spot (the world is no longer the same) and runs a cat's turn.
\<close>

theorem clicks_handled_after_game_end:
  assumes "handleClick b0 w0 c0 = Some (e, b, w)" and "e = Win \<or> e = Lose"
  shows "(cat b = Some c \<or> blocked w c \<longrightarrow> handleClick b w c = Some (Continue, b, w)) \<and>
         (cat b \<noteq> Some c \<and> \<not> blocked w c \<longrightarrow>
            handleClick b w c = moveCat b (w\<lparr>blocked := (blocked w)(c := True)\<rparr>) \<and>
            (\<forall>e' b' w'. handleClick b w c = Some (e', b', w') \<longrightarrow> blocked w' c \<and> w' \<noteq> w))"
proof -
  have "blocked w' c \<and> w' \<noteq> w"
    if "cat b \<noteq> Some c" "\<not> blocked w c" "handleClick b w c = Some (e', b', w')" for e' b' w'
  proof -
    have "blocked w' = (blocked w)(c := True)" using that by (rule handleClick_blocks(2))
    then have "blocked w' c" by simp
    then show ?thesis using that(2) by auto
  qed
  then show ?thesis
    using handleClick_ignored [of b c w] handleClick_blocks(1) [of b c w] by blast
qed

theorem clicks_handled_after_game_end_witness:
  "\<exists>b w e b1 w1. Board_new (module_loaded (\<lambda>_. 0)) 1 5 0 = Some (b, w) \<and>
      handleClick b w (0, 1, 0) = Some (e, b1, w1) \<and> e = Lose \<and>
      handleClick b1 w1 (0, 3, 0) = Some (Continue, b1, w1) \<and>
      handleClick b1 w1 (0, 2, 0) = moveCat b1 (w1\<lparr>blocked := (blocked w1)((0, 2, 0) := True)\<rparr>)"
proof -
  from row5_lost obtain b w e b1 w1 where bn: "Board_new (module_loaded (\<lambda>_. 0)) 1 5 0 = Some (b, w)"
    and h: "handleClick b w (0, 1, 0) = Some (e, b1, w1)"
    and f: "e = Lose" "cat b1 = Some (0, 3, 0)" "\<not> blocked w1 (0, 2, 0)"
    by (auto split: option.splits)
  have e: "e = Win \<or> e = Lose" using f(1) by simp
  have "handleClick b1 w1 (0, 3, 0) = Some (Continue, b1, w1)"
    using clicks_handled_after_game_end [OF h e, of "(0, 3, 0)"] f by simp
  moreover have "handleClick b1 w1 (0, 2, 0) = moveCat b1 (w1\<lparr>blocked := (blocked w1)((0, 2, 0) := True)\<rparr>)"
    using clicks_handled_after_game_end [OF h e, of "(0, 2, 0)"] f by simp
  ultimately show ?thesis using bn h f(1) by blast
qed

subsection \<open>The player's click\<close>

text \<open>
  C9. A click on the cat's spot or on a blocked spot returns at once: the board and the
  world (blocked flags, distances, the cat, the random numbers drawn) are what they were, and
  no \<^verbatim>\<open>TypeError\<close> leaves the handler. A click on any other spot sets the blocked flag of that
  spot, and of no other, and then runs \<^verbatim>\<open>moveCat\<close> once; on a heap without dangling references
  the handler ends.
\<close>

theorem handleClick_noop_or_one_turn:
  "(cat b = Some c \<or> blocked w c \<longrightarrow> handleClick b w c = Some (Continue, b, w)) \<and>
   (cat b \<noteq> Some c \<and> \<not> blocked w c \<longrightarrow>
      handleClick b w c = moveCat b (w\<lparr>blocked := (blocked w)(c := True)\<rparr>) \<and>
      (\<forall>e b' w'. handleClick b w c = Some (e, b', w') \<longrightarrow> blocked w' = (blocked w)(c := True)) \<and>
      (heap_closed w \<longrightarrow> handleClick b w c \<noteq> None))"
  using handleClick_ignored [of b c w] handleClick_blocks [of b c w] handleClick_total [of w b c]
  by blast

theorem handleClick_noop_or_one_turn_witness:
  "\<exists>b w. Board_new (module_loaded (\<lambda>_. 0)) 1 5 0 = Some (b, w) \<and>
      handleClick b w (0, 2, 0) = Some (Continue, b, w) \<and>
      handleClick b w (0, 1, 0) = moveCat b (w\<lparr>blocked := (blocked w)((0, 1, 0) := True)\<rparr>) \<and>
      handleClick b w (0, 1, 0) \<noteq> None"
proof -
  from row5_facts obtain b w where bn: "Board_new (module_loaded (\<lambda>_. 0)) 1 5 0 = Some (b, w)"
    and f: "cat b = Some (0, 2, 0)" "\<not> blocked w (0, 1, 0)"
    by (auto split: option.splits)
  have hc: "heap_closed w" using bn heap_closed_module_loaded by (rule Board_new_heap_closed)
  have "handleClick b w (0, 2, 0) = Some (Continue, b, w)"
    using handleClick_noop_or_one_turn [of b "(0, 2, 0)" w] f by simp
  moreover have "cat b \<noteq> Some (0, 1, 0)" using f(1) by simp
  then have "handleClick b w (0, 1, 0) = moveCat b (w\<lparr>blocked := (blocked w)((0, 1, 0) := True)\<rparr>) \<and>
      handleClick b w (0, 1, 0) \<noteq> None"
    using handleClick_noop_or_one_turn [of b "(0, 1, 0)" w] f(2) hc by blast
  ultimately show ?thesis using bn by blast
qed

subsection \<open>A second board\<close>

text \<open>
  C10. \<^verbatim>\<open>createGraph\<close> pushes onto the one module-level boundary object and nothing ever
  empties it. After a second board is constructed (a game on the first may lie in between) the
  boundary's list is what it was before the first board, then the rim spots of the first
  board, then the rim spots of the second. The spots of the first board are not spots of the
  second, and a later run of \<^verbatim>\<open>updateDistances\<close> on the second board starts from the whole
  list: whatever it returns has every unblocked rim spot of the first board labelled 1, and on
  a heap without dangling references before the first board it does return.
\<close>

theorem boundary_accumulates_over_boards:
  assumes "Board_new w0 h1 wd1 n1 = Some (b1, w1)" and "play (b1, w1) clicks = Some (b1', w1')"
    and "Board_new w1' h2 wd2 n2 = Some (b2, w2)"
  shows "boundary_adjacent w2 =
           boundary_adjacent w0 @ filter (on_rim b1) (cells b1) @ filter (on_rim b2) (cells b2) \<and>
         (\<forall>c\<in>set (cells b1). c \<notin> set (cells b2)) \<and>
         (\<forall>w3. updateDistances b2 w2 = Some w3 \<longrightarrow>
            (\<forall>c\<in>set (cells b1). on_rim b1 c \<and> \<not> blocked w2 c \<longrightarrow> distance w3 c = 1)) \<and>
         (heap_closed w0 \<longrightarrow>
            (\<exists>w3. updateDistances b2 w2 = Some w3 \<and>
               (\<forall>c\<in>set (cells b1). on_rim b1 c \<and> \<not> blocked w2 c \<longrightarrow> distance w3 c = 1)))"
proof -
  note s1 = Board_new_structure [OF assms(1)] and s2 = Board_new_structure [OF assms(3)]
  note f = play_frame [OF assms(2)]
  have list: "boundary_adjacent w2 =
      boundary_adjacent w0 @ filter (on_rim b1) (cells b1) @ filter (on_rim b2) (cells b2)"
    unfolding s2(6) using f s1(6) by simp
  have apart: "c \<notin> set (cells b2)" if "c \<in> set (cells b1)" for c
  proof
    assume "c \<in> set (cells b2)"
    then have "fst c = ident b2" using Board_new_cell_iff [OF assms(3)] by blast
    moreover have "fst c = ident b1" using that Board_new_cell_iff [OF assms(1)] by blast
    ultimately show False using s1(1,9) s2(1) f by simp
  qed
  have one: "distance w3 c = 1"
    if ud: "updateDistances b2 w2 = Some w3" and c: "c \<in> set (cells b1)" "on_rim b1 c" "\<not> blocked w2 c"
    for w3 c
  proof -
    have "c \<in> set (boundary_adjacent w2)" unfolding list using c(1,2) by simp
    then have "hops w2 (Suc 0) (Spot c)"
      using c(3) by (intro hops_step [OF hops_start]) simp_all
    moreover have "Suc 0 \<le> j" if "hops w2 j (Spot c)" for j
      using that hops_zero [of w2 "Spot c"] by (cases j) auto
    ultimately have "distance w3 c = enat (Suc 0)" by (rule updateDistances_correct(2) [OF ud])
    then show ?thesis by (simp add: one_enat_def)
  qed
  have runs: "\<exists>w3. updateDistances b2 w2 = Some w3 \<and>
      (\<forall>c\<in>set (cells b1). on_rim b1 c \<and> \<not> blocked w2 c \<longrightarrow> distance w3 c = 1)"
    if hc: "heap_closed w0"
  proof -
    have "heap_closed w1" using assms(1) hc by (rule Board_new_heap_closed)
    with assms(2) have "heap_closed w1'" by (rule play_heap_closed)
    with assms(3) have "heap_closed w2" by (rule Board_new_heap_closed)
    then obtain w3 where ud: "updateDistances b2 w2 = Some w3"
      using updateDistances_total by blast
    then show ?thesis using one by blast
  qed
  show ?thesis using list apart one runs by blast
qed

text \<open>Two 3 by 3 boards, one after the other: the distance pass on the second board returns
  and has labelled the rim spot (1, 0) of the first board with 1.\<close>

theorem boundary_accumulates_over_boards_witness:
  "\<exists>b1 w1 b2 w2 w3. Board_new (module_loaded (\<lambda>_. 0)) 3 3 0 = Some (b1, w1) \<and>
      Board_new w1 3 3 0 = Some (b2, w2) \<and>
      boundary_adjacent w2 = filter (on_rim b1) (cells b1) @ filter (on_rim b2) (cells b2) \<and>
      (0, 1, 0) \<in> set (cells b1) \<and> (0, 1, 0) \<notin> set (cells b2) \<and>
      (0, 1, 0) \<in> set (boundary_adjacent w2) \<and>
      updateDistances b2 w2 = Some w3 \<and> distance w3 (0, 1, 0) = 1"
proof -
  from square3_facts obtain b1 w1 where bn1: "Board_new (module_loaded (\<lambda>_. 0)) 3 3 0 = Some (b1, w1)"
    and f: "(0, 1, 0) \<in> set (cells b1)" and nb: "\<not> blocked w1 (0, 1, 0)"
    by (auto split: option.splits)
  from Board_new_total [of 0 w1 3 3] obtain b2 w2 where bn2: "Board_new w1 3 3 0 = Some (b2, w2)"
    by auto
  have p: "play (b1, w1) [] = Some (b1, w1)" by simp
  note all = boundary_accumulates_over_boards [OF bn1 p bn2]
  from all
  have list: "boundary_adjacent w2 =
      boundary_adjacent (module_loaded (\<lambda>_. 0)) @ filter (on_rim b1) (cells b1) @ filter (on_rim b2) (cells b2)"
    and apart: "\<forall>c\<in>set (cells b1). c \<notin> set (cells b2)" by blast+
  from all heap_closed_module_loaded [of "\<lambda>_. 0"] obtain w3 where
    ud: "updateDistances b2 w2 = Some w3"
    and one: "\<forall>c\<in>set (cells b1). on_rim b1 c \<and> \<not> blocked w2 c \<longrightarrow> distance w3 c = 1"
    by blast
  have rim: "on_rim b1 (0, 1, 0)" by (simp add: on_rim_def spot_y_def)
  have "(0, 1, 0) \<notin> set (cells b2)" using apart f by blast
  then have "blocked w2 (0, 1, 0) = blocked w1 (0, 1, 0)" by (rule Board_new_structure(12) [OF bn2])
  then have "\<not> blocked w2 (0, 1, 0)" using nb by simp
  then have d: "distance w3 (0, 1, 0) = 1" using one f rim by blast
  have "boundary_adjacent w2 = filter (on_rim b1) (cells b1) @ filter (on_rim b2) (cells b2)"
    using list by (simp add: module_loaded_def)
  moreover have "(0, 1, 0) \<notin> set (cells b2)" using apart f by blast
  moreover have "(0, 1, 0) \<in> set (boundary_adjacent w2)" unfolding list using f rim by simp
  ultimately show ?thesis using bn1 bn2 f ud d by blast
qed

end
